theory Spec2Isabelle
  imports Main "HOL-Library.Multiset"
begin

section \<open>Python text primitives\<close>

text \<open>
  A Python \<open>str\<close> is modelled as a \<open>string\<close> holding the UTF-8 bytes of the text.
  The character classes below are the ASCII members of the classes Python uses
  (\<open>str.isspace\<close>, the regular-expression classes \<open>\s\<close> and \<open>\d\<close>); whitespace and
  decimal digits outside ASCII are not part of the model.
\<close>

definition newline :: char where
  "newline = CHR 0x0A"

definition is_space :: "char \<Rightarrow> bool" where
  "is_space c = (c \<in> set [CHR 0x09, CHR 0x0A, CHR 0x0B, CHR 0x0C, CHR 0x0D,
                            CHR 0x1C, CHR 0x1D, CHR 0x1E, CHR 0x1F, CHR 0x20])"

definition is_digit :: "char \<Rightarrow> bool" where
  "is_digit c = (c \<in> set ''0123456789'')"

text \<open>\<open>s.strip()\<close>: whitespace removed from both ends.\<close>

definition strip :: "string \<Rightarrow> string" where
  "strip s = rev (dropWhile is_space (rev (dropWhile is_space s)))"

text \<open>\<open>s.startswith(p)\<close> and the substring test \<open>p in s\<close>.\<close>

fun starts_with :: "string \<Rightarrow> string \<Rightarrow> bool" where
  "starts_with s [] = True"
| "starts_with [] (p # ps) = False"
| "starts_with (c # cs) (p # ps) = (c = p \<and> starts_with cs ps)"

fun py_in :: "string \<Rightarrow> string \<Rightarrow> bool" where
  "py_in p [] = (p = [])"
| "py_in p (c # cs) = (starts_with (c # cs) p \<or> py_in p cs)"

text \<open>\<open>str(n)\<close> for an integer: decimal digits, a minus sign for negatives.\<close>

fun str_nat :: "nat \<Rightarrow> string" where
  "str_nat n = (if n < 10 then [''0123456789'' ! n]
                else str_nat (n div 10) @ [''0123456789'' ! (n mod 10)])"

declare str_nat.simps [simp del]

definition str_int :: "int \<Rightarrow> string" where
  "str_int i = (if i < 0 then CHR ''-'' # str_nat (nat (- i)) else str_nat (nat i))"

section \<open>Documents\<close>

text \<open>
  A document is a passage with a metadata dictionary. The dictionary is modelled by the
  keys the program reads; a key that is absent is \<open>None\<close>, which is what
  \<open>metadata.get(key)\<close> returns for it. The monolithic application stores the book title
  under \<open>title\<close>, the client and server under \<open>book_title\<close>.
\<close>

record metadata =
  title :: "string option"
  book_title :: "string option"
  author :: "string option"
  page :: "int option"
  source_file :: "string option"

record document =
  page_content :: string
  metadata :: metadata

text \<open>\<open>d.get(key, default)\<close> on an optional entry.\<close>

definition get_or :: "'a option \<Rightarrow> 'a \<Rightarrow> 'a" where
  "get_or v d = (case v of None \<Rightarrow> d | Some x \<Rightarrow> x)"

section \<open>The citation pattern of \<open>answer_verifier.py\<close>\<close>

text \<open>
  \<open>pattern = r"\[Kaynak: (.*?)\s*-\s*(.*?),\s*Sayfa:\s*(\d+)\]"\<close>

  The pattern is a sequence of literals, lazy \<open>(.*?)\<close> groups, greedy \<open>\s*\<close> runs and a
  greedy \<open>(\d+)\<close> group. Each piece is a backtracking matcher that takes the matcher of the
  rest of the pattern as its continuation and tries its alternatives in the order of
  Python's \<open>re\<close> engine: a lazy group tries the continuation before it consumes another
  character, a greedy run consumes first and gives characters back one at a time.
\<close>

definition lit :: "string \<Rightarrow> (string \<Rightarrow> 'a option) \<Rightarrow> string \<Rightarrow> 'a option" where
  "lit l k s = (if starts_with s l then k (drop (length l) s) else None)"

fun lazy_dot :: "(string \<Rightarrow> 'a option) \<Rightarrow> string \<Rightarrow> (string \<times> 'a) option" where
  "lazy_dot k [] = map_option (Pair []) (k [])"
| "lazy_dot k (c # cs) =
     (case k (c # cs) of
        Some r \<Rightarrow> Some ([], r)
      | None \<Rightarrow>
          if c = newline then None
          else map_option (\<lambda>(g, r). (c # g, r)) (lazy_dot k cs))"

fun greedy_space :: "(string \<Rightarrow> 'a option) \<Rightarrow> string \<Rightarrow> 'a option" where
  "greedy_space k [] = k []"
| "greedy_space k (c # cs) =
     (if is_space c then
        (case greedy_space k cs of Some r \<Rightarrow> Some r | None \<Rightarrow> k (c # cs))
      else k (c # cs))"

fun greedy_digit0 :: "(string \<Rightarrow> 'a option) \<Rightarrow> string \<Rightarrow> (string \<times> 'a) option" where
  "greedy_digit0 k [] = map_option (Pair []) (k [])"
| "greedy_digit0 k (c # cs) =
     (if is_digit c then
        (case greedy_digit0 k cs of
           Some (g, r) \<Rightarrow> Some (c # g, r)
         | None \<Rightarrow> map_option (Pair []) (k (c # cs)))
      else map_option (Pair []) (k (c # cs)))"

fun greedy_digit1 :: "(string \<Rightarrow> 'a option) \<Rightarrow> string \<Rightarrow> (string \<times> 'a) option" where
  "greedy_digit1 k [] = None"
| "greedy_digit1 k (c # cs) =
     (if is_digit c then map_option (\<lambda>(g, r). (c # g, r)) (greedy_digit0 k cs) else None)"

text \<open>
  One match attempt at the start of \<open>s\<close>: the three groups and the text after the match.
\<close>

definition citation_pattern :: "string \<Rightarrow> (string \<times> string \<times> string \<times> string) option" where
  "citation_pattern =
     lit ''[Kaynak: ''
       (lazy_dot
         (greedy_space
           (lit ''-''
             (greedy_space
               (lazy_dot
                 (lit '',''
                   (greedy_space
                     (lit ''Sayfa:''
                       (greedy_space
                         (greedy_digit1
                           (lit '']'' Some)))))))))))"

text \<open>What a successful match consumed: each piece splits off its share of the input.\<close>

lemma starts_with_append: "starts_with s p \<longleftrightarrow> (\<exists>r. s = p @ r)"
  by (induction s p rule: starts_with.induct) auto

lemma lit_SomeD:
  assumes "lit l k s = Some r"
  shows "\<exists>s'. s = l @ s' \<and> k s' = Some r"
  using assms by (auto simp: lit_def starts_with_append split: if_splits)

lemma lazy_dot_SomeD:
  "lazy_dot k s = Some (g, r) \<Longrightarrow> \<exists>s'. s = g @ s' \<and> newline \<notin> set g \<and> k s' = Some r"
proof (induction s arbitrary: g)
  case Nil
  then show ?case by auto
next
  case (Cons c cs)
  show ?case
  proof (cases "k (c # cs)")
    case (Some r')
    with Cons.prems show ?thesis by auto
  next
    case None
    with Cons.prems obtain g' where g: "g = c # g'" "c \<noteq> newline" "lazy_dot k cs = Some (g', r)"
      by (auto split: if_splits)
    from Cons.IH[OF g(3)] g(1,2) show ?thesis by auto
  qed
qed

lemma greedy_space_SomeD:
  "greedy_space k s = Some r \<Longrightarrow>
     \<exists>w s'. s = w @ s' \<and> (\<forall>c\<in>set w. is_space c) \<and> k s' = Some r"
proof (induction s)
  case Nil
  then show ?case by auto
next
  case (Cons c cs)
  show ?case
  proof (cases "is_space c \<and> greedy_space k cs \<noteq> None")
    case True
    with Cons.prems have "greedy_space k cs = Some r" by (auto split: option.splits)
    from Cons.IH[OF this] obtain w s' where
      "cs = w @ s'" "\<forall>c\<in>set w. is_space c" "k s' = Some r" by blast
    with True have "c # cs = (c # w) @ s' \<and> (\<forall>x\<in>set (c # w). is_space x) \<and> k s' = Some r"
      by simp
    then show ?thesis by blast
  next
    case False
    with Cons.prems have "k (c # cs) = Some r" by (auto split: option.splits if_splits)
    then have "c # cs = [] @ (c # cs) \<and> (\<forall>x\<in>set []. is_space x) \<and> k (c # cs) = Some r"
      by simp
    then show ?thesis by blast
  qed
qed

lemma greedy_digit0_SomeD:
  "greedy_digit0 k s = Some (g, r) \<Longrightarrow>
     \<exists>s'. s = g @ s' \<and> (\<forall>c\<in>set g. is_digit c) \<and> k s' = Some r"
proof (induction s arbitrary: g)
  case Nil
  then show ?case by auto
next
  case (Cons c cs)
  show ?case
  proof (cases "is_digit c \<and> greedy_digit0 k cs \<noteq> None")
    case True
    with Cons.prems obtain g' where g: "g = c # g'" "greedy_digit0 k cs = Some (g', r)"
      by (auto split: option.splits)
    from Cons.IH[OF g(2)] g(1) True show ?thesis by auto
  next
    case False
    with Cons.prems have "g = [] \<and> k (c # cs) = Some r"
      by (auto split: option.splits if_splits)
    then show ?thesis by auto
  qed
qed

lemma greedy_digit1_SomeD:
  assumes "greedy_digit1 k s = Some (g, r)"
  shows "\<exists>s'. s = g @ s' \<and> g \<noteq> [] \<and> (\<forall>c\<in>set g. is_digit c) \<and> k s' = Some r"
proof (cases s)
  case Nil
  with assms show ?thesis by simp
next
  case (Cons c cs)
  with assms obtain g' where g: "is_digit c" "g = c # g'" "greedy_digit0 k cs = Some (g', r)"
    by (auto split: if_splits)
  from greedy_digit0_SomeD[OF g(3)] g(1,2) Cons show ?thesis by auto
qed

lemma citation_pattern_SomeD:
  assumes "citation_pattern s = Some (t, a, p, r)"
  shows "\<exists>w1 w2 w3 w4.
           s = ''[Kaynak: '' @ t @ w1 @ ''-'' @ w2 @ a @ '','' @ w3 @ ''Sayfa:'' @ w4 @ p @ '']'' @ r
           \<and> (\<forall>c\<in>set (w1 @ w2 @ w3 @ w4). is_space c)
           \<and> newline \<notin> set (t @ a)
           \<and> p \<noteq> [] \<and> (\<forall>c\<in>set p. is_digit c)"
proof -
  from assms obtain s1 where s1: "s = ''[Kaynak: '' @ s1"
    and m1: "lazy_dot (greedy_space (lit ''-'' (greedy_space (lazy_dot (lit '','' (greedy_space
               (lit ''Sayfa:'' (greedy_space (greedy_digit1 (lit '']'' Some)))))))))) s1
             = Some (t, a, p, r)"
    unfolding citation_pattern_def by (blast dest: lit_SomeD)
  from lazy_dot_SomeD[OF m1] obtain s2 where s2: "s1 = t @ s2" "newline \<notin> set t"
    and m2: "greedy_space (lit ''-'' (greedy_space (lazy_dot (lit '','' (greedy_space
               (lit ''Sayfa:'' (greedy_space (greedy_digit1 (lit '']'' Some))))))))) s2
             = Some (a, p, r)" by blast
  from greedy_space_SomeD[OF m2] obtain w1 s3 where s3: "s2 = w1 @ s3" "\<forall>c\<in>set w1. is_space c"
    and m3: "lit ''-'' (greedy_space (lazy_dot (lit '','' (greedy_space
               (lit ''Sayfa:'' (greedy_space (greedy_digit1 (lit '']'' Some)))))))) s3
             = Some (a, p, r)" by blast
  from lit_SomeD[OF m3] obtain s4 where s4: "s3 = ''-'' @ s4"
    and m4: "greedy_space (lazy_dot (lit '','' (greedy_space
               (lit ''Sayfa:'' (greedy_space (greedy_digit1 (lit '']'' Some))))))) s4
             = Some (a, p, r)" by blast
  from greedy_space_SomeD[OF m4] obtain w2 s5 where s5: "s4 = w2 @ s5" "\<forall>c\<in>set w2. is_space c"
    and m5: "lazy_dot (lit '','' (greedy_space
               (lit ''Sayfa:'' (greedy_space (greedy_digit1 (lit '']'' Some)))))) s5
             = Some (a, p, r)" by blast
  from lazy_dot_SomeD[OF m5] obtain s6 where s6: "s5 = a @ s6" "newline \<notin> set a"
    and m6: "lit '','' (greedy_space
               (lit ''Sayfa:'' (greedy_space (greedy_digit1 (lit '']'' Some))))) s6
             = Some (p, r)" by blast
  from lit_SomeD[OF m6] obtain s7 where s7: "s6 = '','' @ s7"
    and m7: "greedy_space (lit ''Sayfa:'' (greedy_space (greedy_digit1 (lit '']'' Some)))) s7
             = Some (p, r)" by blast
  from greedy_space_SomeD[OF m7] obtain w3 s8 where s8: "s7 = w3 @ s8" "\<forall>c\<in>set w3. is_space c"
    and m8: "lit ''Sayfa:'' (greedy_space (greedy_digit1 (lit '']'' Some))) s8 = Some (p, r)"
    by blast
  from lit_SomeD[OF m8] obtain s9 where s9: "s8 = ''Sayfa:'' @ s9"
    and m9: "greedy_space (greedy_digit1 (lit '']'' Some)) s9 = Some (p, r)" by blast
  from greedy_space_SomeD[OF m9] obtain w4 s10 where s10: "s9 = w4 @ s10" "\<forall>c\<in>set w4. is_space c"
    and m10: "greedy_digit1 (lit '']'' Some) s10 = Some (p, r)" by blast
  from greedy_digit1_SomeD[OF m10] obtain s11 where s11: "s10 = p @ s11" "p \<noteq> []"
      "\<forall>c\<in>set p. is_digit c"
    and m11: "lit '']'' Some s11 = Some r" by blast
  from lit_SomeD[OF m11] have s12: "s11 = '']'' @ r" by blast
  have "s = ''[Kaynak: '' @ t @ w1 @ ''-'' @ w2 @ a @ '','' @ w3 @ ''Sayfa:'' @ w4 @ p @ '']'' @ r"
    unfolding s1 s2 s3 s4 s5 s6 s7 s8 s9 s10 s11 s12 ..
  moreover have "\<forall>c\<in>set (w1 @ w2 @ w3 @ w4). is_space c"
    using s3(2) s5(2) s8(2) s10(2) by auto
  moreover have "newline \<notin> set (t @ a)" using s2(2) s6(2) by auto
  ultimately show ?thesis using s11(2,3) by blast
qed

lemma citation_pattern_shorter:
  assumes "citation_pattern s = Some (t, a, p, r)"
  shows "length r < length s"
  using citation_pattern_SomeD[OF assms] by auto

text \<open>
  \<open>re.findall(pattern, final_answer)\<close>: the matches from left to right, none overlapping
  an earlier one; each match gives the tuple of its three groups. The search resumes where
  the previous match ended. The pattern starts with a literal, so it matches nothing at
  the end of the text.
\<close>

function findall :: "string \<Rightarrow> (string \<times> string \<times> string) list" where
  "findall [] = []"
| "findall (c # cs) =
     (case citation_pattern (c # cs) of
        Some (t, a, p, r) \<Rightarrow> (t, a, p) # findall r
      | None \<Rightarrow> findall cs)"
  by pat_completeness auto
termination
  by (relation "measure length") (auto dest: citation_pattern_shorter)

declare findall.simps [simp del]

section \<open>Errors\<close>

text \<open>
  An exception is a value. \<open>Raised\<close> stands for an exception thrown by a collaborator the
  core treats as a black box: the document store, the relevance model and the generation
  engine. The other constructors are the exceptions the Python code raises by itself.
\<close>

datatype error =
  Raised string
| NameError string
| AttributeError string
| KeyError string
| TypeError string

section \<open>Policy A: \<open>AnswerVerifier.verify_and_present\<close> (\<open>answer_verifier.py\<close>)\<close>

type_synonym citation = "string \<times> string \<times> string"

text \<open>
  The key of a document in \<open>source_docs_map\<close>:
  \<open>(metadata.get("title", "Bilinmiyor"), metadata.get("author", "Bilinmiyor"),
     str(metadata.get("page", 0)))\<close>.
\<close>

definition provenance :: "document \<Rightarrow> citation" where
  "provenance doc =
     (get_or (title (metadata doc)) ''Bilinmiyor'',
      get_or (author (metadata doc)) ''Bilinmiyor'',
      str_int (get_or (page (metadata doc)) 0))"

text \<open>The dictionary comprehension: a later document replaces an earlier one with its key.\<close>

definition source_docs_map :: "document list \<Rightarrow> (citation \<rightharpoonup> document)" where
  "source_docs_map source_docs = map_of (rev (map (\<lambda>doc. (provenance doc, doc)) source_docs))"

text \<open>The set comprehension that strips each group of each match.\<close>

definition answer_references_set :: "(string \<times> string \<times> string) list \<Rightarrow> citation set" where
  "answer_references_set raw = (\<lambda>(t, a, p). (strip t, strip a, strip p)) ` set raw"

text \<open>
  Step 4 sorts the documents of the verified references with
  \<open>key=lambda d: (d.metadata.get('title'), d.metadata.get('page'))\<close>, without defaults:
  the key of a document that lacks an entry has \<open>None\<close> in its place. Python compares two
  such tuples at their first unequal components, and \<open><\<close> between \<open>None\<close> and a string or
  an integer raises \<open>TypeError\<close>.
\<close>

definition display_key :: "document \<Rightarrow> string option \<times> int option" where
  "display_key doc = (title (metadata doc), page (metadata doc))"

definition orderable :: "string option \<times> int option \<Rightarrow> string option \<times> int option \<Rightarrow> bool" where
  "orderable k1 k2 =
     (if fst k1 \<noteq> fst k2 then fst k1 \<noteq> None \<and> fst k2 \<noteq> None
      else snd k1 = snd k2 \<or> (snd k1 \<noteq> None \<and> snd k2 \<noteq> None))"

text \<open>
  What the function presents. With no citation tag in the answer it calls
  \<open>_present_unverified_answer\<close> and returns. Otherwise it prints the answer, then the
  verified sources in sorted order and then, when \<open>hallucinated_refs\<close> is not empty, the
  warning with the hallucinated references. The sort ends if and only if every two keys
  can be ordered: a sort that returns has compared, directly or through a chain of
  comparisons, any two of its elements, and among keys that cannot all be ordered every
  such chain holds a comparison that raises. When the sort raises, the function ends with
  \<open>TypeError\<close> before the hallucinated references are reported. The model returns the
  values that are presented; the printed lines themselves are not modelled.
\<close>

datatype presentation =
  Present_unverified string "document list"
| Present_verdict string "citation set" "citation set"

definition verify_and_present :: "string \<Rightarrow> document list \<Rightarrow> error + presentation" where
  "verify_and_present final_answer source_docs =
     (let answer_references_raw = findall final_answer in
      if answer_references_raw = [] then Inr (Present_unverified final_answer source_docs)
      else
        let answer_references = answer_references_set answer_references_raw;
            keys = dom (source_docs_map source_docs);
            verified_refs = answer_references \<inter> keys;
            hallucinated_refs = answer_references - keys;
            verified_sources = (\<lambda>ref. the (source_docs_map source_docs ref)) ` verified_refs
        in if \<exists>d1\<in>verified_sources. \<exists>d2\<in>verified_sources.
                \<not> orderable (display_key d1) (display_key d2)
           then Inl (TypeError ''<'')
           else Inr (Present_verdict final_answer verified_refs hallucinated_refs))"

section \<open>Prompt templates\<close>

text \<open>
  \<open>GENERATION_PROMPT\<close> and \<open>VERIFICATION_PROMPT\<close> are fixed instruction texts with two
  replacement fields each (\<open>{context}\<close> then \<open>{question}\<close>; \<open>{source_chunk}\<close> then
  \<open>{generated_answer}\<close>). A template is given by the three pieces of fixed text around its
  fields; \<open>template.format(...)\<close> puts the two arguments between them.
\<close>

record prompt_template =
  before_first :: string
  before_second :: string
  after_second :: string

definition format_prompt :: "prompt_template \<Rightarrow> string \<Rightarrow> string \<Rightarrow> string" where
  "format_prompt tpl first_field second_field =
     before_first tpl @ first_field @ before_second tpl @ second_field @ after_second tpl"

section \<open>The reranker: \<open>ReRanker.rerank\<close> (\<open>reranker.py\<close>)\<close>

text \<open>
  The relevance model's scores are only compared with each other, so they are values of
  any linear order (floats without NaN). \<open>list.sort(key=..., reverse=True)\<close> is a stable
  sort in descending order of the key: CPython reverses the list, sorts it stably in
  ascending order and reverses the result, so elements with equal keys keep their input
  order.
\<close>

definition sort_desc :: "('a \<Rightarrow> 'k::linorder) \<Rightarrow> 'a list \<Rightarrow> 'a list" where
  "sort_desc key xs = rev (sort_key key (rev xs))"

definition RERANKER_TOP_N :: nat where
  "RERANKER_TOP_N = 5"

definition rerank ::
  "((string \<times> string) list \<Rightarrow> error + ('s::linorder) list) \<Rightarrow> string \<Rightarrow> document list
     \<Rightarrow> error + document list" where
  "rerank predict query documents =
     (if documents = [] \<or> query = [] then Inr []
      else
        let sentence_pairs = map (\<lambda>doc. (query, page_content doc)) documents in
        case predict sentence_pairs of
          Inl e \<Rightarrow> Inl e
        | Inr scores \<Rightarrow>
            let scored_docs = sort_desc fst (zip scores documents)
            in Inr (map snd (take RERANKER_TOP_N scored_docs)))"

section \<open>The context assembler: \<open>RAGCore._format_context\<close> (\<open>rag_core.py\<close>)\<close>

text \<open>\<open>sep.join(parts)\<close>.\<close>

fun join :: "string \<Rightarrow> string list \<Rightarrow> string" where
  "join sep [] = []"
| "join sep [x] = x"
| "join sep (x # y # ys) = x @ sep @ join sep (y # ys)"

text \<open>The citation header of a chunk, then a line break and the passage.\<close>

definition citation_header :: "document \<Rightarrow> string" where
  "citation_header doc =
     (let source_str = get_or (title (metadata doc)) ''Bilinmiyor'' @ '' - ''
                         @ get_or (author (metadata doc)) ''Bilinmiyor'';
          page_no = get_or (page (metadata doc)) 0
      in ''[Kaynak: '' @ source_str @ '', Sayfa: '' @ str_int page_no @ '']'')"

definition format_context :: "document list \<Rightarrow> string" where
  "format_context documents =
     join ([newline, newline] @ ''---'' @ [newline, newline])
       (map (\<lambda>doc. citation_header doc @ [newline] @ page_content doc) documents)"

section \<open>The streaming pipeline: \<open>RAGCore.stream_query_response\<close> (\<open>rag_core.py\<close>)\<close>

text \<open>
  The identity of a retrieved document in \<open>unique_docs_map\<close>:
  \<open>(doc.page_content, doc.metadata.get('source_file'), doc.metadata.get('page'))\<close>.
\<close>

definition identity :: "document \<Rightarrow> string \<times> string option \<times> int option" where
  "identity doc = (page_content doc, source_file (metadata doc), page (metadata doc))"

text \<open>
  A Python dictionary keeps its keys in the order of their first insertion; assigning to
  a key that is present replaces its value and leaves the order alone.
\<close>

fun dict_set :: "('k \<times> 'v) list \<Rightarrow> 'k \<Rightarrow> 'v \<Rightarrow> ('k \<times> 'v) list" where
  "dict_set [] k v = [(k, v)]"
| "dict_set ((k', v') # kvs) k v =
     (if k' = k then (k', v) # kvs else (k', v') # dict_set kvs k v)"

definition unique_docs_map ::
  "document list \<Rightarrow> ((string \<times> string option \<times> int option) \<times> document) list" where
  "unique_docs_map retrieved_docs =
     foldl (\<lambda>m doc. dict_set m (identity doc) doc) [] retrieved_docs"

definition unique_docs :: "document list \<Rightarrow> document list" where
  "unique_docs retrieved_docs = map snd (unique_docs_map retrieved_docs)"

text \<open>
  The generator is modelled by what happens when it is run to its end: the calls it makes
  to its collaborators and the items it yields, in order, and the exception that ended it,
  if any. The first item is the list of source documents, the later ones are answer
  tokens.
\<close>

datatype item = Source_docs "document list" | Answer_token string

datatype event =
  Retrieve string
| Rerank string "document list"
| Generate string
| Yield item
| Verify string "document list"

text \<open>
  The generation engine's stream: each element is a chunk, given by the \<open>text\<close> entry of
  its first choice (\<open>None\<close> when the entry is absent), or the exception the engine raised
  instead of producing it. The loop yields the non-empty texts and stops at an exception.
\<close>

fun stream_tokens :: "(error + string option) list \<Rightarrow> string list \<times> error option" where
  "stream_tokens [] = ([], None)"
| "stream_tokens (Inl e # chunks) = ([], Some e)"
| "stream_tokens (Inr chunk # chunks) =
     (let token = get_or chunk [];
          (tokens, failure) = stream_tokens chunks
      in (if token \<noteq> [] then token # tokens else tokens, failure))"

definition stream_query_response ::
  "prompt_template \<Rightarrow> (string \<Rightarrow> error + document list)
     \<Rightarrow> ((string \<times> string) list \<Rightarrow> error + ('s::linorder) list)
     \<Rightarrow> (string \<Rightarrow> (error + string option) list)
     \<Rightarrow> string \<Rightarrow> event list \<times> error option" where
  "stream_query_response GENERATION_PROMPT retriever predict llm user_query =
     (case retriever user_query of
        Inl e \<Rightarrow> ([Retrieve user_query], Some e)
      | Inr retrieved_docs \<Rightarrow>
          let unique = unique_docs retrieved_docs in
          if unique = [] then ([Retrieve user_query, Yield (Source_docs [])], None)
          else
            case rerank predict user_query unique of
              Inl e \<Rightarrow> ([Retrieve user_query, Rerank user_query unique], Some e)
            | Inr reranked_docs \<Rightarrow>
                if reranked_docs = [] then
                  ([Retrieve user_query, Rerank user_query unique, Yield (Source_docs [])], None)
                else
                  let final_context = format_context reranked_docs;
                      full_prompt = format_prompt GENERATION_PROMPT final_context user_query;
                      (tokens, failure) = stream_tokens (llm full_prompt)
                  in ([Retrieve user_query, Rerank user_query unique,
                       Yield (Source_docs reranked_docs), Generate full_prompt]
                      @ map (\<lambda>token. Yield (Answer_token token)) tokens,
                      failure))"

section \<open>One query of the monolithic application: \<open>MainApplication._handle_query\<close> (\<open>main.py\<close>)\<close>

text \<open>
  \<open>next(response_stream)\<close> runs the generator to its first yield; an exception before it,
  or later while the tokens are consumed, is caught by \<open>except Exception\<close> and reported.
  With an empty source list the function returns at once. Otherwise it joins all tokens
  and hands the answer, with the source list it received first, to the verifier, whose
  exception is caught and reported in the same way.
\<close>

datatype outcome =
  No_documents
| Presented presentation
| Failed error

fun first_yield :: "event list \<Rightarrow> document list option" where
  "first_yield [] = None"
| "first_yield (Yield (Source_docs docs) # evs) = Some docs"
| "first_yield (ev # evs) = first_yield evs"

fun answer_tokens :: "event list \<Rightarrow> string list" where
  "answer_tokens [] = []"
| "answer_tokens (Yield (Answer_token token) # evs) = token # answer_tokens evs"
| "answer_tokens (ev # evs) = answer_tokens evs"

definition handle_query ::
  "prompt_template \<Rightarrow> (string \<Rightarrow> error + document list)
     \<Rightarrow> ((string \<times> string) list \<Rightarrow> error + ('s::linorder) list)
     \<Rightarrow> (string \<Rightarrow> (error + string option) list)
     \<Rightarrow> string \<Rightarrow> event list \<times> outcome" where
  "handle_query GENERATION_PROMPT retriever predict llm user_query =
     (let (events, failure) = stream_query_response GENERATION_PROMPT retriever predict llm user_query in
      case first_yield events of
        None \<Rightarrow> (events, Failed (get_or failure (Raised ''StopIteration'')))
      | Some source_docs \<Rightarrow>
          if source_docs = [] then (events, No_documents)
          else
            case failure of
              Some e \<Rightarrow> (events, Failed e)
            | None \<Rightarrow>
                let final_answer = concat (answer_tokens events)
                in (events @ [Verify final_answer source_docs],
                    case verify_and_present final_answer source_docs of
                      Inl e \<Rightarrow> Failed e
                    | Inr presented \<Rightarrow> Presented presented))"

section \<open>The client: \<open>RAGCore\<close> of \<open>client/client_components.py\<close>\<close>

definition RERANKER_N :: nat where
  "RERANKER_N = 7"

text \<open>\<open>sorted(zip(docs, scores), key=lambda x: x[1], reverse=True)\<close>, then the first N.\<close>

definition rerank_documents ::
  "((string \<times> string) list \<Rightarrow> error + ('s::linorder) list) \<Rightarrow> string \<Rightarrow> document list
     \<Rightarrow> error + document list" where
  "rerank_documents predict query docs =
     (if docs = [] then Inr []
      else
        let pairs = map (\<lambda>doc. (query, page_content doc)) docs in
        case predict pairs of
          Inl e \<Rightarrow> Inl e
        | Inr scores \<Rightarrow>
            let doc_scores = sort_desc snd (zip docs scores)
            in Inr (map fst (take RERANKER_N doc_scores)))"

text \<open>
  The sentinel of the client's \<open>_format_context\<close> for an empty list (UTF-8 bytes of the
  Turkish sentence "no source was found to answer the user's question").
\<close>

definition NO_SOURCE_SENTINEL :: string where
  "NO_SOURCE_SENTINEL =
     ''Kullan'' @ [CHR 0xC4, CHR 0xB1] @ ''c'' @ [CHR 0xC4, CHR 0xB1] @ ''n''
       @ [CHR 0xC4, CHR 0xB1] @ ''n sorusunu yan'' @ [CHR 0xC4, CHR 0xB1] @ ''tlamak i''
       @ [CHR 0xC3, CHR 0xA7] @ ''in hi'' @ [CHR 0xC3, CHR 0xA7] @ ''bir kaynak bulunamad''
       @ [CHR 0xC4, CHR 0xB1] @ ''.''"

text \<open>
  The client's header is \<open>[Kaynak: {title} ({author}), Sayfa: {page}]\<close>, the title read
  from \<open>book_title\<close>. A missing page is rendered by the default text.
\<close>

definition source_ref :: "document \<Rightarrow> string" where
  "source_ref doc =
     ''[Kaynak: '' @ get_or (book_title (metadata doc)) ''Bilinmeyen Kitap''
       @ '' ('' @ get_or (author (metadata doc)) ''Bilinmeyen Yazar'' @ ''), Sayfa: ''
       @ (case page (metadata doc) of None \<Rightarrow> ''Bilinmeyen Sayfa'' | Some n \<Rightarrow> str_int n)
       @ '']''"

definition client_format_context :: "document list \<Rightarrow> string" where
  "client_format_context docs =
     (if docs = [] then NO_SOURCE_SENTINEL
      else join ([newline, newline] @ ''---'' @ [newline, newline])
             (map (\<lambda>doc. source_ref doc @ [newline] @ page_content doc) docs))"

text \<open>
  Both \<open>RAGCore\<close> and \<open>AnswerVerifier\<close> of \<open>client_components.py\<close> keep their console
  formatter in the attribute \<open>_formatter\<close> (set in \<open>__init__\<close>); neither has an attribute
  \<open>formatter\<close>. Evaluating \<open>self.formatter\<close>, as \<open>generate_answer\<close> (line 164) and \<open>verify\<close>
  (line 221) do, raises \<open>AttributeError\<close>.
\<close>

definition self_formatter :: "error + unit" where
  "self_formatter = Inl (AttributeError ''formatter'')"

text \<open>
  \<open>client_components.py\<close> never imports the module \<open>re\<close>, so the name is unbound there
  and evaluating \<open>re.sub\<close> (line 211 of \<open>verify\<close>) raises \<open>NameError\<close>.
\<close>

definition re_module :: "error + unit" where
  "re_module = Inl (NameError ''re'')"

text \<open>
  \<open>generate_answer\<close>: rerank, build the context and the prompt, announce the generation on
  the console, call the generation engine (blocking; \<open>llm\<close> gives the text of the first
  choice of its response) and return the stripped answer with the reranked documents.
\<close>

definition generate_answer ::
  "prompt_template \<Rightarrow> ((string \<times> string) list \<Rightarrow> error + ('s::linorder) list)
     \<Rightarrow> (string \<Rightarrow> error + string) \<Rightarrow> string \<Rightarrow> document list
     \<Rightarrow> error + (string \<times> document list)" where
  "generate_answer GENERATION_PROMPT predict llm query retrieved_docs =
     (case rerank_documents predict query retrieved_docs of
        Inl e \<Rightarrow> Inl e
      | Inr reranked_docs \<Rightarrow>
          let context = client_format_context reranked_docs;
              full_prompt = format_prompt GENERATION_PROMPT context query
          in case self_formatter of
               Inl e \<Rightarrow> Inl e
             | Inr _ \<Rightarrow>
                 (case llm full_prompt of
                    Inl e \<Rightarrow> Inl e
                  | Inr response_text \<Rightarrow> Inr (strip response_text, reranked_docs)))"

section \<open>Policy B: \<open>AnswerVerifier.verify\<close> (\<open>client/client_components.py\<close>)\<close>

record final_response =
  final_answer :: string
  verified_sources :: "metadata list"
  unverified_sources :: "metadata list"
  is_fully_verified :: bool
  raw_llm_answer :: string

text \<open>
  The canonical "not found" sentence of rule 3 of the client's \<open>GENERATION_PROMPT\<close>, which
  \<open>verify\<close> looks for in the raw answer, and the answer reported for an empty claim (UTF-8
  bytes of the Turkish sentences).
\<close>

definition NOT_FOUND_SENTENCE :: string where
  "NOT_FOUND_SENTENCE =
     ''Sa'' @ [CHR 0xC4, CHR 0x9F] @ ''lanan belgelerde bu bilgi mevcut de''
       @ [CHR 0xC4, CHR 0x9F] @ ''il.''"

definition EMPTY_ANSWER_MESSAGE :: string where
  "EMPTY_ANSWER_MESSAGE =
     ''Model bo'' @ [CHR 0xC5, CHR 0x9F] @ '' bir cevap '' @ [CHR 0xC3, CHR 0xBC] @ ''retti.''"

text \<open>
  \<open>re.sub(r'\[Kaynak:.*?\]', '', raw_answer)\<close>: every tag, from \<open>[Kaynak:\<close> to the first
  closing bracket on the same line, is removed.
\<close>

fun tag_end :: "string \<Rightarrow> string option" where
  "tag_end [] = None"
| "tag_end (c # cs) =
     (if c = CHR '']'' then Some cs else if c = newline then None else tag_end cs)"

lemma tag_end_shorter: "tag_end s = Some r \<Longrightarrow> length r < length s"
  by (induction s) (auto split: if_splits)

function sub_tags :: "string \<Rightarrow> string" where
  "sub_tags [] = []"
| "sub_tags (c # cs) =
     (if starts_with (c # cs) ''[Kaynak:'' then
        (case tag_end (drop 8 (c # cs)) of
           Some r \<Rightarrow> sub_tags r
         | None \<Rightarrow> c # sub_tags cs)
      else c # sub_tags cs)"
  by pat_completeness auto
termination
proof (relation "measure length")
  fix c cs r
  assume "tag_end (drop 8 (c # cs)) = Some r"
  then have "length r < length (drop 8 (c # cs))" by (rule tag_end_shorter)
  then show "(r, c # cs) \<in> measure length" by simp
qed auto

text \<open>\<open>s.upper()\<close> on the ASCII letters.\<close>

definition upper_char :: "char \<Rightarrow> char" where
  "upper_char c =
     (case map_of (zip ''abcdefghijklmnopqrstuvwxyz'' ''ABCDEFGHIJKLMNOPQRSTUVWXYZ'') c of
        None \<Rightarrow> c
      | Some u \<Rightarrow> u)"

definition upper :: "string \<Rightarrow> string" where
  "upper s = map upper_char s"

text \<open>
  The loop over the source documents (lines 223 to 248). The debug message of each round
  reads \<open>doc.metadata['book_title']\<close> and \<open>doc.metadata['page']\<close>, which raise \<open>KeyError\<close>
  for a missing key. The call of the generation engine is not guarded: its exception
  leaves the loop and the function.
\<close>

fun verify_sources ::
  "prompt_template \<Rightarrow> (string \<Rightarrow> error + string) \<Rightarrow> string \<Rightarrow> document list
     \<Rightarrow> metadata list \<times> metadata list \<Rightarrow> error + (metadata list \<times> metadata list)" where
  "verify_sources VERIFICATION_PROMPT llm claim [] (verified, unverified) =
     Inr (verified, unverified)"
| "verify_sources VERIFICATION_PROMPT llm claim (doc # docs) (verified, unverified) =
     (let source_chunk = page_content doc;
          verification_prompt = format_prompt VERIFICATION_PROMPT source_chunk claim
      in if book_title (metadata doc) = None then Inl (KeyError ''book_title'')
         else if page (metadata doc) = None then Inl (KeyError ''page'')
         else
           case llm verification_prompt of
             Inl e \<Rightarrow> Inl e
           | Inr response_text \<Rightarrow>
               let verification_result = upper (strip response_text) in
               if py_in ''EVET'' verification_result then
                 verify_sources VERIFICATION_PROMPT llm claim docs
                   (verified @ [metadata doc], unverified)
               else
                 verify_sources VERIFICATION_PROMPT llm claim docs
                   (verified, unverified @ [metadata doc]))"

definition verify ::
  "prompt_template \<Rightarrow> (string \<Rightarrow> error + string) \<Rightarrow> string \<Rightarrow> document list
     \<Rightarrow> error + final_response" where
  "verify VERIFICATION_PROMPT llm raw_answer source_docs =
     (if py_in NOT_FOUND_SENTENCE raw_answer then
        Inr \<lparr>final_answer = raw_answer, verified_sources = [], unverified_sources = [],
             is_fully_verified = True, raw_llm_answer = raw_answer\<rparr>
      else
        case re_module of
          Inl e \<Rightarrow> Inl e
        | Inr _ \<Rightarrow>
            let claim = strip (sub_tags raw_answer) in
            if claim = [] then
              Inr \<lparr>final_answer = EMPTY_ANSWER_MESSAGE, verified_sources = [],
                   unverified_sources = [], is_fully_verified = False,
                   raw_llm_answer = raw_answer\<rparr>
            else
              case self_formatter of
                Inl e \<Rightarrow> Inl e
              | Inr _ \<Rightarrow>
                  (case verify_sources VERIFICATION_PROMPT llm claim source_docs ([], []) of
                     Inl e \<Rightarrow> Inl e
                   | Inr (verified, unverified) \<Rightarrow>
                       Inr \<lparr>final_answer = raw_answer, verified_sources = verified,
                            unverified_sources = unverified,
                            is_fully_verified = (length verified > 0 \<and> length unverified = 0),
                            raw_llm_answer = raw_answer\<rparr>))"

section \<open>One query of the client: \<open>TerminalApplication._handle_query\<close> (\<open>client/client.py\<close>)\<close>

text \<open>
  The server's answer is \<open>None\<close> when the request failed. The function has no exception
  handler: an exception of \<open>generate_answer\<close> or \<open>verify\<close> leaves it.
\<close>

definition client_handle_query ::
  "prompt_template \<Rightarrow> prompt_template \<Rightarrow> (string \<Rightarrow> document list option)
     \<Rightarrow> ((string \<times> string) list \<Rightarrow> error + ('s::linorder) list)
     \<Rightarrow> (string \<Rightarrow> error + string) \<Rightarrow> string \<Rightarrow> error + final_response option" where
  "client_handle_query GENERATION_PROMPT VERIFICATION_PROMPT retrieve_documents predict llm query =
     (case retrieve_documents query of
        None \<Rightarrow> Inr None
      | Some retrieved_docs \<Rightarrow>
          if retrieved_docs = [] then Inr None
          else
            case generate_answer GENERATION_PROMPT predict llm query retrieved_docs of
              Inl e \<Rightarrow> Inl e
            | Inr (raw_answer, source_docs) \<Rightarrow>
                (case verify VERIFICATION_PROMPT llm raw_answer source_docs of
                   Inl e \<Rightarrow> Inl e
                 | Inr verified_result \<Rightarrow> Inr (Some verified_result)))"

section \<open>Readings of the contracts, and sample data\<close>

text \<open>
  The specification's reading of a reranker result \<open>out\<close> for the scored candidates
  \<open>scored\<close> and the bound \<open>n\<close>: the candidates can be arranged as a selection followed by a
  rest such that the arrangement holds exactly the candidates, is in descending order of
  score, keeps candidates of equal score in their input order, the selection holds the
  first \<open>n\<close> of them (all, when there are fewer) and \<open>out\<close> is the documents of the
  selection.
\<close>

definition top_n_by_score :: "nat \<Rightarrow> ('s::linorder \<times> 'a) list \<Rightarrow> 'a list \<Rightarrow> bool" where
  "top_n_by_score n scored out \<longleftrightarrow>
     (\<exists>sel rest.
        out = map snd sel \<and>
        length sel = min n (length scored) \<and>
        mset (sel @ rest) = mset scored \<and>
        sorted_wrt (\<lambda>x y. fst x \<ge> fst y) (sel @ rest) \<and>
        (\<forall>k. filter (\<lambda>x. fst x = k) (sel @ rest) = filter (\<lambda>x. fst x = k) scored))"

text \<open>A document with the given passage and no metadata, for concrete runs.\<close>

definition passage :: "string \<Rightarrow> document" where
  "passage s = \<lparr>page_content = s,
                metadata = \<lparr>title = None, book_title = None, author = None, page = None,
                            source_file = None\<rparr>\<rparr>"


text \<open>
  The generation engine affirms a chunk for a claim when its response to the chunk's
  verification prompt, stripped and upper-cased, contains \<open>EVET\<close>.
\<close>

definition affirms ::
  "prompt_template \<Rightarrow> (string \<Rightarrow> error + string) \<Rightarrow> string \<Rightarrow> document \<Rightarrow> bool" where
  "affirms VERIFICATION_PROMPT llm claim doc =
     (case llm (format_prompt VERIFICATION_PROMPT (page_content doc) claim) of
        Inl e \<Rightarrow> False
      | Inr response_text \<Rightarrow> py_in ''EVET'' (upper (strip response_text)))"

section \<open>Properties\<close>

subsection \<open>Properties of Policy A\<close>

lemma dom_source_docs_map: "dom (source_docs_map docs) = provenance ` set docs"
  by (simp add: source_docs_map_def dom_map_of_conv_image_fst image_image)

lemma strip_ends:
  "strip s = [] \<or> (\<not> is_space (hd (strip s)) \<and> \<not> is_space (last (strip s)))"
proof (cases "strip s = []")
  case True
  then show ?thesis by simp
next
  case False
  define u where "u = dropWhile is_space s"
  define v where "v = dropWhile is_space (rev u)"
  have sv: "strip s = rev v" by (simp add: strip_def u_def v_def)
  with False have v: "v \<noteq> []" by simp
  then have u: "u \<noteq> []" by (auto simp: v_def)
  have "\<not> is_space (hd v)" using v unfolding v_def by (rule hd_dropWhile)
  then have l: "\<not> is_space (last (strip s))" using v by (simp add: sv last_rev)
  obtain w where w: "rev u = w @ v"
    by (metis v_def takeWhile_dropWhile_id)
  have "last v = last (rev u)" using v w by simp
  also have "\<dots> = hd u" using u by (simp add: last_rev)
  finally have "hd (strip s) = hd u" using v by (simp add: sv hd_rev)
  moreover have "\<not> is_space (hd u)" using u unfolding u_def by (rule hd_dropWhile)
  ultimately show ?thesis using l by simp
qed

lemma strip_idem: "strip (strip s) = strip s"
proof (cases "strip s = []")
  case True
  show ?thesis unfolding True by (simp add: strip_def)
next
  case False
  with strip_ends[of s] have e: "\<not> is_space (hd (strip s))" "\<not> is_space (last (strip s))" by auto
  have a: "dropWhile is_space (strip s) = strip s"
    using False e(1) by (cases "strip s") auto
  have "dropWhile is_space (rev (strip s)) = rev (strip s)"
    using False e(2) by (cases "rev (strip s)") (auto simp: last_rev[symmetric] hd_rev)
  then show ?thesis using a unfolding strip_def[of "strip s"] by simp
qed

lemma str_nat_nonempty: "str_nat n \<noteq> []"
  by (subst str_nat.simps) simp

lemma digit_nth_zero: "n < 10 \<Longrightarrow> ''0123456789'' ! n = CHR ''0'' \<Longrightarrow> n = 0"
proof -
  assume lt: "n < 10" and z: "''0123456789'' ! n = CHR ''0''"
  from lt have "n \<in> {0, 1, 2, 3, 4, 5, 6, 7, 8, 9}" by auto
  with z show "n = 0" by auto
qed

lemma str_nat_hd_zero: "hd (str_nat n) = CHR ''0'' \<Longrightarrow> n = 0"
proof (induction n rule: str_nat.induct)
  case (1 n)
  show ?case
  proof (cases "n < 10")
    case True
    with "1.prems" show ?thesis
      by (subst (asm) str_nat.simps) (simp add: digit_nth_zero)
  next
    case False
    with "1.prems" have "hd (str_nat (n div 10)) = CHR ''0''"
      by (subst (asm) str_nat.simps) (simp add: str_nat_nonempty)
    with "1.IH" False have "n div 10 = 0" by simp
    with False show ?thesis by simp
  qed
qed

lemma str_int_leading_zero: "str_int i = CHR ''0'' # ds \<Longrightarrow> ds = []"
proof -
  assume a: "str_int i = CHR ''0'' # ds"
  then have nn: "\<not> i < 0" by (auto simp: str_int_def split: if_splits)
  with a have s: "str_nat (nat i) = CHR ''0'' # ds" by (simp add: str_int_def)
  then have "nat i = 0" by (intro str_nat_hd_zero) simp
  with s show ?thesis by (simp add: str_nat.simps)
qed


lemma strip_digits:
  assumes "\<forall>c\<in>set p. is_digit c"
  shows "strip p = p"
proof -
  have nd: "\<And>c. is_digit c \<Longrightarrow> \<not> is_space c"
    by (auto simp: is_digit_def is_space_def)
  have a: "dropWhile is_space p = p"
    using assms nd by (cases p) auto
  have "dropWhile is_space (rev p) = rev p"
    using assms nd by (cases "rev p") (auto dest!: arg_cong[where f = set])
  with a show ?thesis by (simp add: strip_def)
qed

lemma citation_pattern_suffix:
  assumes "citation_pattern s = Some (t, a, p, r)"
  shows "\<exists>h. s = h @ r"
proof -
  from citation_pattern_SomeD[OF assms] obtain w1 w2 w3 w4 where
    "s = ''[Kaynak: '' @ t @ w1 @ ''-'' @ w2 @ a @ '','' @ w3 @ ''Sayfa:'' @ w4 @ p @ '']'' @ r"
    by blast
  then have
    "s = (''[Kaynak: '' @ t @ w1 @ ''-'' @ w2 @ a @ '','' @ w3 @ ''Sayfa:'' @ w4 @ p @ '']'') @ r"
    by simp
  then show ?thesis by blast
qed

lemma findall_match:
  "(t, a, p) \<in> set (findall s) \<Longrightarrow> \<exists>pre u r. s = pre @ u \<and> citation_pattern u = Some (t, a, p, r)"
proof (induction s rule: findall.induct)
  case 1
  then show ?case by (simp add: findall.simps)
next
  case (2 c cs)
  show ?case
  proof (cases "citation_pattern (c # cs)")
    case None
    with "2.prems" have "(t, a, p) \<in> set (findall cs)" by (simp add: findall.simps)
    from "2.IH"(1)[OF None this] obtain pre u r where
      "cs = pre @ u" "citation_pattern u = Some (t, a, p, r)" by blast
    then have "c # cs = (c # pre) @ u \<and> citation_pattern u = Some (t, a, p, r)" by simp
    then show ?thesis by blast
  next
    case (Some m)
    then obtain t' a' p' r' where m: "citation_pattern (c # cs) = Some (t', a', p', r')"
      by (cases m) auto
    show ?thesis
    proof (cases "(t, a, p) = (t', a', p')")
      case True
      with m have "c # cs = [] @ (c # cs) \<and> citation_pattern (c # cs) = Some (t, a, p, r')"
        by simp
      then show ?thesis by blast
    next
      case False
      with "2.prems" m have "(t, a, p) \<in> set (findall r')" by (auto simp: findall.simps)
      from "2.IH"(2)[OF m refl refl refl this] obtain pre u r where
        u: "r' = pre @ u" "citation_pattern u = Some (t, a, p, r)" by blast
      from citation_pattern_suffix[OF m] obtain h where "c # cs = h @ r'" by blast
      with u have "c # cs = (h @ pre) @ u \<and> citation_pattern u = Some (t, a, p, r)" by simp
      then show ?thesis by blast
    qed
  qed
qed


lemma findall_tag_5: "findall ''[Kaynak: T - A, Sayfa: 5]'' = [(''T'', ''A'', ''5'')]"
  by (simp add: findall.simps citation_pattern_def lit_def is_space_def is_digit_def newline_def)

lemma findall_tag_99: "findall ''[Kaynak: T - A, Sayfa: 99]'' = [(''T'', ''A'', ''99'')]"
  by (simp add: findall.simps citation_pattern_def lit_def is_space_def is_digit_def newline_def)

lemma refs_tag_5:
  "answer_references_set [(''T'', ''A'', ''5'')] = {(''T'', ''A'', ''5'')}"
  by (simp add: answer_references_set_def strip_def is_space_def)

lemma refs_tag_99:
  "answer_references_set [(''T'', ''A'', ''99'')] = {(''T'', ''A'', ''99'')}"
  by (simp add: answer_references_set_def strip_def is_space_def)

lemma verify_and_present_eq:
  "verify_and_present answer source_docs =
     (if findall answer = [] then Inr (Present_unverified answer source_docs)
      else if \<exists>d1\<in>(\<lambda>ref. the (source_docs_map source_docs ref))
                     ` (answer_references_set (findall answer) \<inter> provenance ` set source_docs).
              \<exists>d2\<in>(\<lambda>ref. the (source_docs_map source_docs ref))
                     ` (answer_references_set (findall answer) \<inter> provenance ` set source_docs).
                \<not> orderable (display_key d1) (display_key d2)
      then Inl (TypeError ''<'')
      else Inr (Present_verdict answer
             (answer_references_set (findall answer) \<inter> provenance ` set source_docs)
             (answer_references_set (findall answer) - provenance ` set source_docs)))"
  by (simp add: verify_and_present_def Let_def dom_source_docs_map)

lemma source_docs_map_in_bundle:
  assumes "ref \<in> provenance ` set source_docs"
  shows "the (source_docs_map source_docs ref) \<in> set source_docs \<and>
         provenance (the (source_docs_map source_docs ref)) = ref"
proof -
  from assms have "ref \<in> dom (source_docs_map source_docs)" by (simp add: dom_source_docs_map)
  then obtain doc where doc: "source_docs_map source_docs ref = Some doc" by blast
  then have "(ref, doc) \<in> set (rev (map (\<lambda>doc. (provenance doc, doc)) source_docs))"
    unfolding source_docs_map_def by (rule map_of_SomeD)
  then show ?thesis using doc by auto
qed

lemma orderable_refl: "orderable k k"
  by (simp add: orderable_def)

lemma orderable_complete_keys:
  assumes "title (metadata d1) \<noteq> None" "page (metadata d1) \<noteq> None"
    and "title (metadata d2) \<noteq> None" "page (metadata d2) \<noteq> None"
  shows "orderable (display_key d1) (display_key d2)"
  using assms by (simp add: orderable_def display_key_def)

text \<open>
  When every chunk of the bundle has a title and a page, the sort of the verified sources
  cannot raise, and the verdict is the intersection and the difference.
\<close>

lemma verify_and_present_verdict:
  assumes "\<forall>doc\<in>set source_docs. title (metadata doc) \<noteq> None \<and> page (metadata doc) \<noteq> None"
  shows "verify_and_present answer source_docs =
     (if findall answer = [] then Inr (Present_unverified answer source_docs)
      else Inr (Present_verdict answer
             (answer_references_set (findall answer) \<inter> provenance ` set source_docs)
             (answer_references_set (findall answer) - provenance ` set source_docs)))"
proof -
  have "orderable (display_key d1) (display_key d2)"
    if "d1 \<in> (\<lambda>ref. the (source_docs_map source_docs ref))
                 ` (answer_references_set (findall answer) \<inter> provenance ` set source_docs)"
      and "d2 \<in> (\<lambda>ref. the (source_docs_map source_docs ref))
                 ` (answer_references_set (findall answer) \<inter> provenance ` set source_docs)"
    for d1 d2
  proof -
    from that have "d1 \<in> set source_docs" "d2 \<in> set source_docs"
      using source_docs_map_in_bundle by blast+
    with assms show ?thesis by (intro orderable_complete_keys) auto
  qed
  then show ?thesis unfolding verify_and_present_eq by auto
qed

lemma answer_reference_origin:
  assumes "(t, a, p) \<in> answer_references_set (findall s)"
  shows "strip t = t \<and> strip a = a \<and> strip p = p \<and> p \<noteq> [] \<and> (\<forall>c\<in>set p. is_digit c) \<and>
         (\<exists>t0 a0 pre w1 w2 w3 w4 post.
            t = strip t0 \<and> a = strip a0 \<and>
            s = pre @ ''[Kaynak: '' @ t0 @ w1 @ ''-'' @ w2 @ a0 @ '','' @ w3 @ ''Sayfa:'' @ w4
                  @ p @ '']'' @ post \<and>
            (\<forall>c\<in>set (w1 @ w2 @ w3 @ w4). is_space c))"
proof -
  from assms obtain t0 a0 p0 where raw: "(t0, a0, p0) \<in> set (findall s)"
    and eq: "t = strip t0" "a = strip a0" "p = strip p0"
    by (auto simp: answer_references_set_def)
  from findall_match[OF raw] obtain pre u r where
    u: "s = pre @ u" "citation_pattern u = Some (t0, a0, p0, r)" by blast
  from citation_pattern_SomeD[OF u(2)] obtain w1 w2 w3 w4 where
    w: "u = ''[Kaynak: '' @ t0 @ w1 @ ''-'' @ w2 @ a0 @ '','' @ w3 @ ''Sayfa:'' @ w4 @ p0 @ '']'' @ r"
       "\<forall>c\<in>set (w1 @ w2 @ w3 @ w4). is_space c" "p0 \<noteq> []" "\<forall>c\<in>set p0. is_digit c"
    by blast
  have p: "p = p0" using eq(3) strip_digits[OF w(4)] by simp
  have "s = pre @ ''[Kaynak: '' @ t0 @ w1 @ ''-'' @ w2 @ a0 @ '','' @ w3 @ ''Sayfa:'' @ w4
                  @ p @ '']'' @ r"
    using u(1) w(1) p by simp
  with w(2) eq(1,2) have
    "\<exists>t0 a0 pre w1 w2 w3 w4 post.
            t = strip t0 \<and> a = strip a0 \<and>
            s = pre @ ''[Kaynak: '' @ t0 @ w1 @ ''-'' @ w2 @ a0 @ '','' @ w3 @ ''Sayfa:'' @ w4
                  @ p @ '']'' @ post \<and>
            (\<forall>c\<in>set (w1 @ w2 @ w3 @ w4). is_space c)"
    by blast
  moreover have "strip t = t" "strip a = a" "strip p = p"
    using eq p strip_digits[OF w(4)] by (simp_all add: strip_idem)
  ultimately show ?thesis using w(3,4) p by blast
qed

lemma page_007_not_evidence: "(t, a, ''007'') \<noteq> provenance doc"
proof
  assume "(t, a, ''007'') = provenance doc"
  then have "str_int (get_or (page (metadata doc)) 0) = CHR ''0'' # ''07''"
    by (simp add: provenance_def)
  from str_int_leading_zero[OF this] show False by simp
qed

subsection \<open>Tags that parse back to their fields\<close>

lemma lit_append: "lit l k (l @ s) = k s"
  by (simp add: lit_def starts_with_append)

lemma lit_None: "\<not> starts_with s l \<Longrightarrow> lit l k s = None"
  by (simp add: lit_def)

lemma lazy_dot_stop:
  assumes "newline \<notin> set g" and "\<And>i. i < length g \<Longrightarrow> k (drop i g @ s') = None"
    and "k s' = Some r"
  shows "lazy_dot k (g @ s') = Some (g, r)"
  using assms(1,2)
proof (induction g)
  case Nil
  with assms(3) show ?case by (cases s') simp_all
next
  case (Cons c g)
  have "k (c # g @ s') = None" using Cons.prems(2)[of 0] by simp
  moreover have "lazy_dot k (g @ s') = Some (g, r)"
  proof (rule Cons.IH)
    show "newline \<notin> set g" using Cons.prems(1) by simp
    show "k (drop i g @ s') = None" if "i < length g" for i
      using Cons.prems(2)[of "Suc i"] that by simp
  qed
  ultimately show ?case using Cons.prems(1) by auto
qed

lemma greedy_space_run:
  assumes "\<forall>c\<in>set w. is_space c" and "s' = [] \<or> \<not> is_space (hd s')" and "k s' = Some r"
  shows "greedy_space k (w @ s') = Some r"
  using assms(1)
proof (induction w)
  case Nil
  with assms(2,3) show ?case by (cases s') simp_all
next
  case (Cons c w)
  then show ?case by simp
qed

lemma greedy_space_None:
  assumes "\<And>w s'. s = w @ s' \<Longrightarrow> \<forall>c\<in>set w. is_space c \<Longrightarrow> k s' = None"
  shows "greedy_space k s = None"
proof (cases "greedy_space k s")
  case None
  then show ?thesis .
next
  case (Some r)
  from greedy_space_SomeD[OF Some] assms show ?thesis by fastforce
qed

lemma greedy_digit0_run:
  assumes "\<forall>c\<in>set p. is_digit c" and "s' = [] \<or> \<not> is_digit (hd s')" and "k s' = Some r"
  shows "greedy_digit0 k (p @ s') = Some (p, r)"
  using assms(1)
proof (induction p)
  case Nil
  with assms(2,3) show ?case by (cases s') simp_all
next
  case (Cons c p)
  then show ?case by simp
qed

lemma greedy_digit1_run:
  assumes "p \<noteq> []" "\<forall>c\<in>set p. is_digit c" and "s' = [] \<or> \<not> is_digit (hd s')" and "k s' = Some r"
  shows "greedy_digit1 k (p @ s') = Some (p, r)"
proof -
  from assms(1) obtain c p' where p: "p = c # p'" by (cases p) auto
  with assms(2) have "is_digit c" "\<forall>c\<in>set p'. is_digit c" by simp_all
  with greedy_digit0_run[of p' s' k r] assms(3,4) show ?thesis by (simp add: p)
qed

text \<open>No dash is found after skipping whitespace inside a title that has none.\<close>

lemma no_dash_inside:
  assumes "u \<noteq> []" "\<not> is_space (last u)" "CHR ''-'' \<notin> set u"
  shows "greedy_space (lit ''-'' k) (u @ x) = None"
proof (rule greedy_space_None)
  fix w s'
  assume split: "u @ x = w @ s'" and w: "\<forall>c\<in>set w. is_space c"
  show "lit ''-'' k s' = None"
  proof (rule lit_None, rule notI)
    assume "starts_with s' ''-''"
    then obtain y where s': "s' = CHR ''-'' # y" by (auto simp: starts_with_append)
    have nsp: "\<not> is_space (CHR ''-'')" by (simp add: is_space_def)
    have "dropWhile is_space (w @ s') = s'"
      using w nsp by (simp add: s' dropWhile_append2)
    moreover have "dropWhile is_space (u @ x) = dropWhile is_space u @ x"
      using assms(1,2) by (intro dropWhile_append1[of "last u"]) simp_all
    ultimately have eq: "dropWhile is_space u @ x = CHR ''-'' # y"
      using split s' by simp
    have "dropWhile is_space u \<noteq> []"
      using assms(1,2) by (auto simp: dropWhile_eq_Nil_conv)
    with eq have "hd (dropWhile is_space u) = CHR ''-''"
      by (cases "dropWhile is_space u") auto
    moreover have "hd (dropWhile is_space u) \<in> set u"
      using \<open>dropWhile is_space u \<noteq> []\<close> by (metis hd_in_set set_dropWhileD)
    ultimately show False using assms(3) by simp
  qed
qed

lemma citation_pattern_tag:
  assumes t: "newline \<notin> set t" "CHR ''-'' \<notin> set t" "t = [] \<or> \<not> is_space (last t)"
    and a: "newline \<notin> set a" "CHR '','' \<notin> set a" "a = [] \<or> \<not> is_space (hd a)"
    and p: "p \<noteq> []" "\<forall>c\<in>set p. is_digit c"
  shows "citation_pattern (''[Kaynak: '' @ t @ '' - '' @ a @ '', Sayfa: '' @ p @ '']'' @ rest)
           = Some (t, a, p, rest)"
proof -
  let ?k5 = "lit '']'' Some :: string \<Rightarrow> string option"
  let ?k4 = "greedy_space (greedy_digit1 ?k5)"
  let ?k3 = "lit '','' (greedy_space (lit ''Sayfa:'' ?k4))"
  let ?k2 = "greedy_space (lazy_dot ?k3)"
  let ?k1 = "greedy_space (lit ''-'' ?k2)"
  have nd: "\<not> is_digit (CHR '']'')" by (simp add: is_digit_def)
  have sp: "is_space (CHR '' '')" by (simp add: is_space_def)
  have dsp: "\<not> is_space (hd p)"
    using p by (cases p) (auto simp: is_digit_def is_space_def)
  have d: "greedy_digit1 ?k5 (p @ '']'' @ rest) = Some (p, rest)"
    using greedy_digit1_run[OF p, of "'']'' @ rest" ?k5 rest] nd by (simp add: lit_def)
  have k4: "?k4 ('' '' @ p @ '']'' @ rest) = Some (p, rest)"
    using greedy_space_run[of "'' ''" "p @ '']'' @ rest" "greedy_digit1 ?k5" "(p, rest)"] sp dsp p(1) d
    by simp
  have k3: "?k3 ('','' @ '' Sayfa:'' @ '' '' @ p @ '']'' @ rest) = Some (p, rest)"
  proof -
    have "lit ''Sayfa:'' ?k4 (''Sayfa:'' @ '' '' @ p @ '']'' @ rest) = Some (p, rest)"
      by (simp only: lit_append k4)
    then have "greedy_space (lit ''Sayfa:'' ?k4) ('' '' @ ''Sayfa:'' @ '' '' @ p @ '']'' @ rest)
                 = Some (p, rest)"
      using greedy_space_run[of "'' ''" "''Sayfa:'' @ '' '' @ p @ '']'' @ rest"
          "lit ''Sayfa:'' ?k4" "(p, rest)"] sp
      by (simp add: is_space_def)
    then show ?thesis by (simp add: lit_def)
  qed
  have g2: "lazy_dot ?k3 (a @ '','' @ '' Sayfa:'' @ '' '' @ p @ '']'' @ rest) = Some (a, p, rest)"
  proof (rule lazy_dot_stop[where k = ?k3 and r = "(p, rest)"])
    show "newline \<notin> set a" by (rule a(1))
    show "?k3 ('','' @ '' Sayfa:'' @ '' '' @ p @ '']'' @ rest) = Some (p, rest)" by (rule k3)
  next
    fix i assume i: "i < length a"
    then have "hd (drop i a @ '','' @ '' Sayfa:'' @ '' '' @ p @ '']'' @ rest) \<in> set a"
      by (metis drop_eq_Nil hd_append2 hd_in_set in_set_dropD not_le)
    with a(2) have "\<not> starts_with (drop i a @ '','' @ '' Sayfa:'' @ '' '' @ p @ '']'' @ rest) '',''"
      using i by (cases "drop i a") (auto simp: starts_with_append)
    then show "?k3 (drop i a @ '','' @ '' Sayfa:'' @ '' '' @ p @ '']'' @ rest) = None"
      by (rule lit_None)
  qed
  have k2: "?k2 ('' '' @ a @ '','' @ '' Sayfa:'' @ '' '' @ p @ '']'' @ rest) = Some (a, p, rest)"
  proof (rule greedy_space_run[where k = "lazy_dot ?k3" and r = "(a, p, rest)"])
    show "lazy_dot ?k3 (a @ '','' @ '' Sayfa:'' @ '' '' @ p @ '']'' @ rest) = Some (a, p, rest)"
      by (rule g2)
    show "\<forall>c\<in>set '' ''. is_space c" using sp by simp
    show "a @ '','' @ '' Sayfa:'' @ '' '' @ p @ '']'' @ rest = [] \<or>
          \<not> is_space (hd (a @ '','' @ '' Sayfa:'' @ '' '' @ p @ '']'' @ rest))"
      using a(3) by (cases a) (simp_all add: is_space_def)
  qed
  have k1: "?k1 ('' '' @ ''-'' @ '' '' @ a @ '','' @ '' Sayfa:'' @ '' '' @ p @ '']'' @ rest)
              = Some (a, p, rest)"
  proof (rule greedy_space_run[where k = "lit ''-'' ?k2" and r = "(a, p, rest)"])
    show "\<forall>c\<in>set '' ''. is_space c" using sp by simp
    show "''-'' @ '' '' @ a @ '','' @ '' Sayfa:'' @ '' '' @ p @ '']'' @ rest = [] \<or>
          \<not> is_space (hd (''-'' @ '' '' @ a @ '','' @ '' Sayfa:'' @ '' '' @ p @ '']'' @ rest))"
      by (simp add: is_space_def)
    show "lit ''-'' ?k2 (''-'' @ '' '' @ a @ '','' @ '' Sayfa:'' @ '' '' @ p @ '']'' @ rest)
            = Some (a, p, rest)"
      by (simp only: lit_append k2)
  qed
  have g1: "lazy_dot ?k1 (t @ '' '' @ ''-'' @ '' '' @ a @ '','' @ '' Sayfa:'' @ '' '' @ p @ '']'' @ rest)
              = Some (t, a, p, rest)"
  proof (rule lazy_dot_stop[where k = ?k1 and r = "(a, p, rest)"])
    show "newline \<notin> set t" by (rule t(1))
    show "?k1 ('' '' @ ''-'' @ '' '' @ a @ '','' @ '' Sayfa:'' @ '' '' @ p @ '']'' @ rest)
            = Some (a, p, rest)" by (rule k1)
  next
    fix i assume i: "i < length t"
    then have u: "drop i t \<noteq> []" by simp
    moreover have "\<not> is_space (last (drop i t))" using t(3) i by auto
    moreover have "CHR ''-'' \<notin> set (drop i t)" using t(2) by (auto dest: in_set_dropD)
    ultimately show "?k1 (drop i t @ '' '' @ ''-'' @ '' '' @ a @ '','' @ '' Sayfa:'' @ '' '' @ p
                            @ '']'' @ rest) = None"
      by (rule no_dash_inside)
  qed
  have "citation_pattern (''[Kaynak: '' @ t @ '' '' @ ''-'' @ '' '' @ a @ '','' @ '' Sayfa:''
                            @ '' '' @ p @ '']'' @ rest) = Some (t, a, p, rest)"
    unfolding citation_pattern_def by (simp only: lit_append g1)
  then show ?thesis by simp
qed


lemma citation_pattern_no_bracket: "CHR ''['' \<noteq> c \<Longrightarrow> citation_pattern (c # cs) = None"
  by (auto simp: citation_pattern_def lit_def)

lemma findall_skip: "CHR ''['' \<notin> set pre \<Longrightarrow> findall (pre @ s) = findall s"
  by (induction pre) (simp_all add: findall.simps citation_pattern_no_bracket)

lemma findall_tag:
  assumes "CHR ''['' \<notin> set pre"
    and "newline \<notin> set t" "CHR ''-'' \<notin> set t" "t = [] \<or> \<not> is_space (last t)"
    and "newline \<notin> set a" "CHR '','' \<notin> set a" "a = [] \<or> \<not> is_space (hd a)"
    and "p \<noteq> []" "\<forall>c\<in>set p. is_digit c"
  shows "findall (pre @ ''[Kaynak: '' @ t @ '' - '' @ a @ '', Sayfa: '' @ p @ '']'' @ rest)
           = (t, a, p) # findall rest"
proof -
  let ?tag = "''[Kaynak: '' @ t @ '' - '' @ a @ '', Sayfa: '' @ p @ '']'' @ rest"
  have m: "citation_pattern ?tag = Some (t, a, p, rest)"
    by (rule citation_pattern_tag[OF assms(2-9)])
  obtain cs where cs: "?tag = CHR ''['' # cs" by simp
  have "findall ?tag = (t, a, p) # findall rest"
    using m unfolding cs by (simp add: findall.simps)
  with findall_skip[OF assms(1)] show ?thesis by simp
qed

lemma str_nat_digits: "\<forall>c\<in>set (str_nat n). is_digit c"
proof (induction n rule: str_nat.induct)
  case (1 n)
  have d: "is_digit (''0123456789'' ! m)" if "m < 10" for m
  proof -
    from that have "m \<in> {0, 1, 2, 3, 4, 5, 6, 7, 8, 9}" by auto
    then show ?thesis by (auto simp: is_digit_def)
  qed
  show ?case
  proof (cases "n < 10")
    case True
    then show ?thesis by (subst str_nat.simps) (simp add: d)
  next
    case False
    with "1.IH" show ?thesis by (subst str_nat.simps) (simp add: d)
  qed
qed

lemma str_int_digits: "0 \<le> i \<Longrightarrow> str_int i \<noteq> [] \<and> (\<forall>c\<in>set (str_int i). is_digit c)"
  by (simp add: str_int_def str_nat_nonempty str_nat_digits)

lemma strip_fixed_ends:
  assumes "strip s = s"
  shows "s = [] \<or> (\<not> is_space (hd s) \<and> \<not> is_space (last s))"
  using strip_ends[of s] assms by simp

lemma header_round_trip:
  assumes prov: "provenance doc = (t, a, p)"
    and t: "newline \<notin> set t" "CHR ''-'' \<notin> set t" "strip t = t"
    and a: "newline \<notin> set a" "CHR '','' \<notin> set a" "strip a = a"
    and n: "0 \<le> get_or (page (metadata doc)) 0"
  shows "findall (citation_header doc) = [(t, a, p)]"
proof -
  from prov have f: "t = get_or (title (metadata doc)) ''Bilinmiyor''"
    "a = get_or (author (metadata doc)) ''Bilinmiyor''"
    "p = str_int (get_or (page (metadata doc)) 0)"
    by (simp_all add: provenance_def)
  have h: "citation_header doc = [] @ ''[Kaynak: '' @ t @ '' - '' @ a @ '', Sayfa: '' @ p @ '']'' @ []"
    by (simp add: citation_header_def f Let_def)
  have "findall ([] @ ''[Kaynak: '' @ t @ '' - '' @ a @ '', Sayfa: '' @ p @ '']'' @ [])
          = (t, a, p) # findall []"
  proof (rule findall_tag)
    show "t = [] \<or> \<not> is_space (last t)" using strip_fixed_ends[OF t(3)] by blast
    show "a = [] \<or> \<not> is_space (hd a)" using strip_fixed_ends[OF a(3)] by blast
    show "p \<noteq> []" "\<forall>c\<in>set p. is_digit c" using str_int_digits[OF n] by (simp_all add: f(3))
  qed (use t a in simp_all)
  then show ?thesis unfolding h by (simp add: findall.simps)
qed

lemma verify_and_present_round_trip:
  assumes "doc \<in> set source_docs" and prov: "provenance doc = (t, a, p)"
    and t: "newline \<notin> set t" "CHR ''-'' \<notin> set t" "strip t = t"
    and a: "newline \<notin> set a" "CHR '','' \<notin> set a" "strip a = a"
    and n: "0 \<le> get_or (page (metadata doc)) 0"
  shows "verify_and_present (citation_header doc) source_docs
           = Inr (Present_verdict (citation_header doc) {(t, a, p)} {})"
proof -
  have f: "findall (citation_header doc) = [(t, a, p)]"
    by (rule header_round_trip[OF prov t a n])
  have "p = str_int (get_or (page (metadata doc)) 0)" using prov by (simp add: provenance_def)
  then have "strip p = p" using str_int_digits[OF n] by (simp add: strip_digits)
  then have r: "answer_references_set [(t, a, p)] = {(t, a, p)}"
    using t(3) a(3) by (simp add: answer_references_set_def)
  have "(t, a, p) \<in> provenance ` set source_docs" using assms(1) prov by (metis imageI)
  then show ?thesis unfolding verify_and_present_eq f r by (simp add: orderable_refl)
qed

subsection \<open>The verdict of Policy A\<close>




text \<open>
  What the function does when the sort cannot raise, that is, for bundles whose chunks all
  have a title and a page. Without a citation tag the answer is presented as unverified.
  Otherwise \<open>verified = answer_citations \<inter> evidence_provenances\<close> and
  \<open>hallucinated = answer_citations - evidence_provenances\<close> are both reported. Every
  citation comes from a tag of the fixed grammar in the answer, each field stripped. A
  provenance is the (title, author, \<open>str(page)\<close>) tuple of a chunk; no integer page has the
  string form \<open>007\<close>, so a citation of page \<open>007\<close> is never verified.
\<close>

lemma policy_a_citation_check:
  assumes "\<forall>doc\<in>set source_docs. title (metadata doc) \<noteq> None \<and> page (metadata doc) \<noteq> None"
  shows "verify_and_present answer source_docs =
     (if findall answer = [] then Inr (Present_unverified answer source_docs)
      else Inr (Present_verdict answer
             (answer_references_set (findall answer) \<inter> provenance ` set source_docs)
             (answer_references_set (findall answer) - provenance ` set source_docs)))"
    and "\<forall>(t, a, p) \<in> answer_references_set (findall answer).
         strip t = t \<and> strip a = a \<and> strip p = p \<and> p \<noteq> [] \<and> (\<forall>c\<in>set p. is_digit c) \<and>
         (\<exists>t0 a0 pre w1 w2 w3 w4 post.
            t = strip t0 \<and> a = strip a0 \<and>
            answer = pre @ ''[Kaynak: '' @ t0 @ w1 @ ''-'' @ w2 @ a0 @ '','' @ w3
                             @ ''Sayfa:'' @ w4 @ p @ '']'' @ post \<and>
            (\<forall>c\<in>set (w1 @ w2 @ w3 @ w4). is_space c))"
    and "(t, a, p) \<in> provenance ` set source_docs \<longleftrightarrow>
        (\<exists>doc\<in>set source_docs.
           t = get_or (title (metadata doc)) ''Bilinmiyor'' \<and>
           a = get_or (author (metadata doc)) ''Bilinmiyor'' \<and>
           p = str_int (get_or (page (metadata doc)) 0))"
    and "(t, a, ''007'') \<notin> provenance ` set source_docs"
proof -
  show "verify_and_present answer source_docs =
     (if findall answer = [] then Inr (Present_unverified answer source_docs)
      else Inr (Present_verdict answer
             (answer_references_set (findall answer) \<inter> provenance ` set source_docs)
             (answer_references_set (findall answer) - provenance ` set source_docs)))"
    by (rule verify_and_present_verdict[OF assms])
  show "\<forall>(t, a, p) \<in> answer_references_set (findall answer).
         strip t = t \<and> strip a = a \<and> strip p = p \<and> p \<noteq> [] \<and> (\<forall>c\<in>set p. is_digit c) \<and>
         (\<exists>t0 a0 pre w1 w2 w3 w4 post.
            t = strip t0 \<and> a = strip a0 \<and>
            answer = pre @ ''[Kaynak: '' @ t0 @ w1 @ ''-'' @ w2 @ a0 @ '','' @ w3
                             @ ''Sayfa:'' @ w4 @ p @ '']'' @ post \<and>
            (\<forall>c\<in>set (w1 @ w2 @ w3 @ w4). is_space c))"
    using answer_reference_origin[of _ _ _ answer] by blast
  show "(t, a, p) \<in> provenance ` set source_docs \<longleftrightarrow>
        (\<exists>doc\<in>set source_docs.
           t = get_or (title (metadata doc)) ''Bilinmiyor'' \<and>
           a = get_or (author (metadata doc)) ''Bilinmiyor'' \<and>
           p = str_int (get_or (page (metadata doc)) 0))"
    by (auto simp: provenance_def image_iff)
  show "(t, a, ''007'') \<notin> provenance ` set source_docs"
    using page_007_not_evidence by blast
qed

text \<open>
  The round trip and the hallucination of the specification, on the bundle of the one
  chunk (T, A, 5).
\<close>

lemma policy_a_examples:
  "verify_and_present ''[Kaynak: T - A, Sayfa: 5]''
     [\<lparr>page_content = ''c'',
       metadata = \<lparr>title = Some ''T'', book_title = None, author = Some ''A'',
                   page = Some 5, source_file = None\<rparr>\<rparr>]
     = Inr (Present_verdict ''[Kaynak: T - A, Sayfa: 5]'' {(''T'', ''A'', ''5'')} {})"
  "verify_and_present ''[Kaynak: T - A, Sayfa: 99]''
     [\<lparr>page_content = ''c'',
       metadata = \<lparr>title = Some ''T'', book_title = None, author = Some ''A'',
                   page = Some 5, source_file = None\<rparr>\<rparr>]
     = Inr (Present_verdict ''[Kaynak: T - A, Sayfa: 99]'' {} {(''T'', ''A'', ''99'')})"
proof -
  let ?d = "\<lparr>page_content = ''c'',
       metadata = \<lparr>title = Some ''T'', book_title = None, author = Some ''A'',
                   page = Some 5, source_file = None\<rparr>\<rparr>"
  have k: "\<forall>doc\<in>set [?d]. title (metadata doc) \<noteq> None \<and> page (metadata doc) \<noteq> None"
    by simp
  have p: "provenance ?d = (''T'', ''A'', ''5'')"
    by (simp add: provenance_def get_or_def str_int_def str_nat.simps)
  show "verify_and_present ''[Kaynak: T - A, Sayfa: 5]'' [?d]
     = Inr (Present_verdict ''[Kaynak: T - A, Sayfa: 5]'' {(''T'', ''A'', ''5'')} {})"
    unfolding verify_and_present_verdict[OF k] findall_tag_5 refs_tag_5 by (simp add: p)
  show "verify_and_present ''[Kaynak: T - A, Sayfa: 99]'' [?d]
     = Inr (Present_verdict ''[Kaynak: T - A, Sayfa: 99]'' {} {(''T'', ''A'', ''99'')})"
    unfolding verify_and_present_verdict[OF k] findall_tag_99 refs_tag_99 by (simp add: p)
qed

subsection \<open>The context assembler and the citation grammar\<close>

lemma findall_tag_separator:
  "findall ''[Kaynak: A - B - C, Sayfa: 5]'' = [(''A'', ''B - C'', ''5'')]"
  by (simp add: findall.simps citation_pattern_def lit_def is_space_def is_digit_def newline_def)

lemma refs_tag_separator:
  "answer_references_set [(''A'', ''B - C'', ''5'')] = {(''A'', ''B - C'', ''5'')}"
  by (simp add: answer_references_set_def strip_def is_space_def)

text \<open>
  C10. There is an evidence chunk whose title contains \<open>" - "\<close> such that an answer that
  repeats, character for character, the citation header the context assembler rendered
  for the chunk has its citation classified as hallucinated: the lazy first group of the
  pattern ends at the first \<open>" - "\<close>, so the parsed title and author differ from the
  chunk's provenance.
\<close>

theorem separator_in_title_not_round_trip:
  "\<exists>doc t a p.
     provenance doc = (t, a, p) \<and> py_in '' - '' t \<and>
     format_context [doc] = citation_header doc @ [newline] @ page_content doc \<and>
     findall (citation_header doc) = [(''A'', ''B - C'', p)] \<and>
     (''A'', ''B - C'', p) \<noteq> provenance doc \<and>
     verify_and_present (citation_header doc) [doc] =
       Inr (Present_verdict (citation_header doc) {} {(''A'', ''B - C'', p)})"
proof -
  let ?doc = "\<lparr>page_content = ''text'',
                metadata = \<lparr>title = Some ''A - B'', book_title = None, author = Some ''C'',
                            page = Some 5, source_file = None\<rparr>\<rparr>"
  have h: "citation_header ?doc = ''[Kaynak: A - B - C, Sayfa: 5]''"
    by (simp add: citation_header_def get_or_def str_int_def str_nat.simps)
  have p: "provenance ?doc = (''A - B'', ''C'', ''5'')"
    by (simp add: provenance_def get_or_def str_int_def str_nat.simps)
  have c: "format_context [?doc] = citation_header ?doc @ [newline] @ page_content ?doc"
    by (simp add: format_context_def)
  have v: "verify_and_present (citation_header ?doc) [?doc] =
       Inr (Present_verdict (citation_header ?doc) {} {(''A'', ''B - C'', ''5'')})"
    unfolding h verify_and_present_eq findall_tag_separator refs_tag_separator
    by (simp add: p)
  have "provenance ?doc = (''A - B'', ''C'', ''5'') \<and> py_in '' - '' ''A - B'' \<and>
     format_context [?doc] = citation_header ?doc @ [newline] @ page_content ?doc \<and>
     findall (citation_header ?doc) = [(''A'', ''B - C'', ''5'')] \<and>
     (''A'', ''B - C'', ''5'') \<noteq> provenance ?doc \<and>
     verify_and_present (citation_header ?doc) [?doc] =
       Inr (Present_verdict (citation_header ?doc) {} {(''A'', ''B - C'', ''5'')})"
    using p c v by (simp add: h findall_tag_separator)
  then show ?thesis by blast
qed

subsection \<open>Policy B and the client\<close>

lemma starts_with_refl: "starts_with s s"
  by (simp add: starts_with_append)

lemma py_in_refl: "py_in s s"
  by (cases s) (simp_all add: starts_with_refl)

text \<open>
  C5. An answer equal to the canonical "not found" sentence, and any answer that contains
  it, is reported fully verified whatever the evidence is. The verdict does not depend on
  the generation engine, not even on one that raises at every call: no verification call
  is made. The answer is returned unchanged for presentation.
\<close>

theorem canonical_negative_short_circuit:
  "verify VERIFICATION_PROMPT llm NOT_FOUND_SENTENCE source_docs =
     Inr \<lparr>final_answer = NOT_FOUND_SENTENCE, verified_sources = [], unverified_sources = [],
          is_fully_verified = True, raw_llm_answer = NOT_FOUND_SENTENCE\<rparr>
   \<and> (py_in NOT_FOUND_SENTENCE raw_answer \<longrightarrow>
        verify VERIFICATION_PROMPT llm raw_answer source_docs =
          Inr \<lparr>final_answer = raw_answer, verified_sources = [], unverified_sources = [],
               is_fully_verified = True, raw_llm_answer = raw_answer\<rparr>)"
  by (simp add: verify_def py_in_refl)

theorem canonical_negative_short_circuit_witness:
  "py_in NOT_FOUND_SENTENCE (''Cevap: '' @ NOT_FOUND_SENTENCE)
   \<and> verify \<lparr>before_first = [], before_second = [], after_second = []\<rparr>
        (\<lambda>prompt. Inl (Raised ''engine down'')) (''Cevap: '' @ NOT_FOUND_SENTENCE) []
      = Inr \<lparr>final_answer = ''Cevap: '' @ NOT_FOUND_SENTENCE, verified_sources = [],
             unverified_sources = [], is_fully_verified = True,
             raw_llm_answer = ''Cevap: '' @ NOT_FOUND_SENTENCE\<rparr>"
proof -
  have h: "py_in NOT_FOUND_SENTENCE (''Cevap: '' @ NOT_FOUND_SENTENCE)"
    by (simp add: NOT_FOUND_SENTENCE_def)
  from canonical_negative_short_circuit[where raw_answer = "''Cevap: '' @ NOT_FOUND_SENTENCE"
      and VERIFICATION_PROMPT = "\<lparr>before_first = [], before_second = [], after_second = []\<rparr>"
      and llm = "\<lambda>prompt. Inl (Raised ''engine down'')" and source_docs = "[]"] h
  show ?thesis by blast
qed

text \<open>
  C4. Outside the short circuit \<open>verify\<close> produces no verdict: the claim is computed with
  \<open>re.sub\<close>, and the name \<open>re\<close> is unbound in the module. Whatever the generation engine
  would say about the chunks, the answer \<open>X is Y.\<close> ends in \<open>NameError\<close>.
\<close>

theorem verify_raises_name_error:
  "verify VERIFICATION_PROMPT llm ''X is Y.'' source_docs = Inl (NameError ''re'')"
  by (simp add: verify_def re_module_def NOT_FOUND_SENTENCE_def)


lemma verify_sources_first_error:
  assumes "book_title (metadata doc) \<noteq> None" "page (metadata doc) \<noteq> None"
    and "llm (format_prompt VERIFICATION_PROMPT (page_content doc) claim) = Inl e"
  shows "verify_sources VERIFICATION_PROMPT llm claim (doc # docs) acc = Inl e"
  using assms by (cases acc) (auto simp: Let_def)

lemma verify_sources_some_error:
  assumes "doc \<in> set docs"
    and "llm (format_prompt VERIFICATION_PROMPT (page_content doc) claim) = Inl e"
  shows "\<exists>e'. verify_sources VERIFICATION_PROMPT llm claim docs acc = Inl e'"
  using assms(1)
proof (induction docs arbitrary: acc)
  case Nil
  then show ?case by simp
next
  case (Cons d ds)
  obtain vs us where acc: "acc = (vs, us)" by (cases acc)
  show ?case
  proof (cases "d = doc")
    case True
    then show ?thesis
      using assms(2) by (simp add: acc Let_def)
  next
    case False
    with Cons.prems have "doc \<in> set ds" by simp
    from Cons.IH[OF this] show ?thesis
      by (auto simp: acc Let_def split: sum.splits)
  qed
qed

text \<open>
  C9, as the code has it. The verification call of a chunk is not guarded. When it raises
  for a chunk whose metadata is complete and that is first in the list, the loop ends with
  that exception; when it raises for any chunk of the list, the loop ends with an
  exception and returns no classification at all.
\<close>

theorem verification_call_not_isolated:
  "(book_title (metadata doc) \<noteq> None \<and> page (metadata doc) \<noteq> None \<and>
    llm (format_prompt VERIFICATION_PROMPT (page_content doc) claim) = Inl e \<longrightarrow>
      verify_sources VERIFICATION_PROMPT llm claim (doc # docs) acc = Inl e)
   \<and> (doc \<in> set docs \<and>
        llm (format_prompt VERIFICATION_PROMPT (page_content doc) claim) = Inl e \<longrightarrow>
      (\<exists>e'. verify_sources VERIFICATION_PROMPT llm claim docs acc = Inl e'))"
  using verify_sources_first_error verify_sources_some_error by blast

theorem verification_call_not_isolated_witness:
  "verify_sources \<lparr>before_first = [], before_second = ''|'', after_second = []\<rparr>
     (\<lambda>prompt. if prompt = ''one|claim'' then Inl (Raised ''engine'') else Inr ''EVET'')
     ''claim''
     [\<lparr>page_content = ''one'',
       metadata = \<lparr>title = None, book_title = Some ''B'', author = Some ''A'',
                   page = Some 1, source_file = None\<rparr>\<rparr>,
      \<lparr>page_content = ''two'',
       metadata = \<lparr>title = None, book_title = Some ''B'', author = Some ''A'',
                   page = Some 2, source_file = None\<rparr>\<rparr>]
     ([], [])
   = Inl (Raised ''engine'')"
proof -
  let ?tpl = "\<lparr>before_first = [], before_second = ''|'', after_second = []\<rparr>"
  let ?llm = "\<lambda>prompt. if prompt = ''one|claim'' then Inl (Raised ''engine'') else Inr ''EVET''"
  let ?d1 = "\<lparr>page_content = ''one'',
       metadata = \<lparr>title = None, book_title = Some ''B'', author = Some ''A'',
                   page = Some 1, source_file = None\<rparr>\<rparr>"
  have h: "book_title (metadata ?d1) \<noteq> None \<and> page (metadata ?d1) \<noteq> None \<and>
           ?llm (format_prompt ?tpl (page_content ?d1) ''claim'') = Inl (Raised ''engine'')"
    by (simp add: format_prompt_def)
  from verification_call_not_isolated[where doc = ?d1 and llm = ?llm
      and VERIFICATION_PROMPT = ?tpl and claim = "''claim''" and e = "Raised ''engine''"] h
  show ?thesis by blast
qed

text \<open>
  The claim fails at two chunks of which the engine raises on the first and would affirm
  the second: the loop returns the exception and classifies nothing, and \<open>verify\<close> as a
  whole returns no verdict either.
\<close>

theorem verification_failure_aborts_counterexample:
  "verify_sources \<lparr>before_first = [], before_second = ''|'', after_second = []\<rparr>
     (\<lambda>prompt. if prompt = ''one|claim'' then Inl (Raised ''engine'') else Inr ''EVET'')
     ''claim''
     [\<lparr>page_content = ''one'',
       metadata = \<lparr>title = None, book_title = Some ''B'', author = Some ''A'',
                   page = Some 1, source_file = None\<rparr>\<rparr>,
      \<lparr>page_content = ''two'',
       metadata = \<lparr>title = None, book_title = Some ''B'', author = Some ''A'',
                   page = Some 2, source_file = None\<rparr>\<rparr>]
     ([], [])
   = Inl (Raised ''engine'')
   \<and> verify \<lparr>before_first = [], before_second = ''|'', after_second = []\<rparr>
     (\<lambda>prompt. if prompt = ''one|claim'' then Inl (Raised ''engine'') else Inr ''EVET'')
     ''claim''
     [\<lparr>page_content = ''one'',
       metadata = \<lparr>title = None, book_title = Some ''B'', author = Some ''A'',
                   page = Some 1, source_file = None\<rparr>\<rparr>,
      \<lparr>page_content = ''two'',
       metadata = \<lparr>title = None, book_title = Some ''B'', author = Some ''A'',
                   page = Some 2, source_file = None\<rparr>\<rparr>]
   = Inl (NameError ''re'')"
  by (simp add: format_prompt_def verify_def re_module_def NOT_FOUND_SENTENCE_def)

text \<open>
  What the loop and the verdict computed from it do when every call returns: a chunk is
  verified when the stripped, upper-cased response contains \<open>EVET\<close> and unverified
  otherwise, and the verdict is \<open>len(verified) > 0 and len(unverified) == 0\<close>.
\<close>

lemma verify_sources_affirm_deny:
  assumes "book_title (metadata d1) \<noteq> None" "page (metadata d1) \<noteq> None"
    and "book_title (metadata d2) \<noteq> None" "page (metadata d2) \<noteq> None"
    and "llm (format_prompt VERIFICATION_PROMPT (page_content d1) claim) = Inr ''EVET''"
    and "llm (format_prompt VERIFICATION_PROMPT (page_content d2) claim) = Inr ''HAYIR''"
  shows "verify_sources VERIFICATION_PROMPT llm claim [d1, d2] ([], [])
           = Inr ([metadata d1], [metadata d2])"
  using assms by (simp add: Let_def strip_def is_space_def upper_def upper_char_def)

text \<open>
  When the loop returns, it has put the metadata of the affirmed chunks into the verified
  list and that of all other chunks into the unverified list, in the order of the bundle;
  so the formula of line 251 is true exactly when the bundle is not empty and every chunk
  is affirmed.
\<close>

lemma verify_sources_partition:
  "verify_sources VERIFICATION_PROMPT llm claim docs (vs0, us0) = Inr (vs, us) \<Longrightarrow>
     vs = vs0 @ map metadata (filter (affirms VERIFICATION_PROMPT llm claim) docs) \<and>
     us = us0 @ map metadata (filter (\<lambda>doc. \<not> affirms VERIFICATION_PROMPT llm claim doc) docs)"
proof (induction docs arbitrary: vs0 us0)
  case Nil
  then show ?case by simp
next
  case (Cons d ds)
  from Cons.prems obtain r where r: "llm (format_prompt VERIFICATION_PROMPT (page_content d) claim) = Inr r"
    by (auto simp: Let_def split: if_splits sum.splits)
  show ?case
  proof (cases "py_in ''EVET'' (upper (strip r))")
    case True
    with Cons.prems r have
      "verify_sources VERIFICATION_PROMPT llm claim ds (vs0 @ [metadata d], us0) = Inr (vs, us)"
      by (auto simp: Let_def split: if_splits)
    from Cons.IH[OF this] True r show ?thesis by (simp add: affirms_def)
  next
    case False
    with Cons.prems r have
      "verify_sources VERIFICATION_PROMPT llm claim ds (vs0, us0 @ [metadata d]) = Inr (vs, us)"
      by (auto simp: Let_def split: if_splits)
    from Cons.IH[OF this] False r show ?thesis by (simp add: affirms_def)
  qed
qed

lemma verify_sources_unanimity:
  assumes "verify_sources VERIFICATION_PROMPT llm claim docs ([], []) = Inr (vs, us)"
  shows "(length vs > 0 \<and> length us = 0) \<longleftrightarrow>
           (docs \<noteq> [] \<and> (\<forall>doc\<in>set docs. affirms VERIFICATION_PROMPT llm claim doc))"
proof -
  from verify_sources_partition[OF assms] have
    vs: "vs = map metadata (filter (affirms VERIFICATION_PROMPT llm claim) docs)" and
    us: "us = map metadata (filter (\<lambda>doc. \<not> affirms VERIFICATION_PROMPT llm claim doc) docs)"
    by simp_all
  show ?thesis
    unfolding vs us by (cases docs) (auto simp: filter_empty_conv)
qed

text \<open>
  C8. On the client path \<open>generate_answer\<close> never returns: after the prompt is built it
  evaluates \<open>self.formatter\<close> and raises \<open>AttributeError\<close> (or the relevance model raised
  before that). So \<open>_handle_query\<close> never hands an evidence list, or anything else, to the
  verifier, and never shows a verdict.
\<close>

theorem generate_answer_never_returns:
  "(\<exists>e. generate_answer GENERATION_PROMPT predict llm query retrieved_docs = Inl e)
   \<and> (\<forall>verdict. client_handle_query GENERATION_PROMPT VERIFICATION_PROMPT retrieve_documents
                    predict llm query \<noteq> Inr (Some verdict))"
proof -
  have g: "\<exists>e. generate_answer GENERATION_PROMPT predict llm q docs = Inl e" for q docs
    by (simp add: generate_answer_def self_formatter_def Let_def split: sum.splits)
  have "client_handle_query GENERATION_PROMPT VERIFICATION_PROMPT retrieve_documents
          predict llm query \<noteq> Inr (Some verdict)" for verdict
  proof (cases "retrieve_documents query")
    case None
    then show ?thesis by (simp add: client_handle_query_def)
  next
    case (Some docs)
    from g[of query docs] obtain e where "generate_answer GENERATION_PROMPT predict llm query docs = Inl e"
      by blast
    with Some show ?thesis by (simp add: client_handle_query_def)
  qed
  with g show ?thesis by blast
qed

subsection \<open>The reranker is a refinement\<close>

lemma mset_sort_desc: "mset (sort_desc key xs) = mset xs"
  by (simp add: sort_desc_def)

lemma sorted_sort_desc: "sorted_wrt (\<lambda>x y. key x \<ge> key y) (sort_desc key xs)"
proof -
  have "sorted (map key (sort_key key (rev xs)))" by (rule sorted_sort_key)
  then have "sorted_wrt (\<lambda>x y. key x \<le> key y) (sort_key key (rev xs))"
    by (simp add: sorted_map)
  then show ?thesis by (simp add: sort_desc_def sorted_wrt_rev)
qed

lemma stable_sort_desc:
  "filter (\<lambda>x. key x = k) (sort_desc key xs) = filter (\<lambda>x. key x = k) xs"
proof -
  have "filter (\<lambda>x. key x = k) (sort_desc key xs)
          = rev (filter (\<lambda>x. key x = k) (sort_key key (rev xs)))"
    by (simp add: sort_desc_def rev_filter)
  also have "\<dots> = rev (filter (\<lambda>x. key x = k) (rev xs))"
    by (simp only: sort_key_stable)
  also have "\<dots> = filter (\<lambda>x. key x = k) xs"
    by (simp add: rev_filter)
  finally show ?thesis .
qed

lemma sort_desc_selection:
  "top_n_by_score n (map (\<lambda>x. (key x, val x)) xs) (map val (take n (sort_desc key xs)))"
proof -
  let ?f = "\<lambda>x. (key x, val x)"
  let ?ys = "sort_desc key xs"
  let ?sel = "map ?f (take n ?ys)"
  let ?rest = "map ?f (drop n ?ys)"
  have all: "?sel @ ?rest = map ?f ?ys"
    by (simp add: map_append[symmetric] del: map_append)
  have "map val (take n ?ys) = map snd ?sel" by (simp add: comp_def)
  moreover have "length ?sel = min n (length (map ?f xs))"
    using arg_cong[OF mset_sort_desc[of key xs], of size] by (simp add: min.commute)
  moreover have "mset (?sel @ ?rest) = mset (map ?f xs)"
    unfolding all by (simp add: mset_sort_desc)
  moreover have "sorted_wrt (\<lambda>x y. fst x \<ge> fst y) (?sel @ ?rest)"
    unfolding all using sorted_sort_desc[of key xs] by (simp add: sorted_wrt_map)
  moreover have "filter (\<lambda>x. fst x = k) (?sel @ ?rest) = filter (\<lambda>x. fst x = k) (map ?f xs)" for k
    unfolding all using stable_sort_desc[of key k xs] by (simp add: filter_map comp_def)
  ultimately show ?thesis unfolding top_n_by_score_def by blast
qed

lemma selection_sub_mset:
  "mset (map val (take n (sort_desc key xs))) \<subseteq># mset (map val xs)"
proof -
  have "mset (map val (sort_desc key xs)) = mset (map val xs)"
    by (simp add: mset_sort_desc)
  moreover have "mset (map val (sort_desc key xs))
        = mset (map val (take n (sort_desc key xs))) + mset (map val (drop n (sort_desc key xs)))"
    by (metis append_take_drop_id map_append mset_append)
  ultimately show ?thesis by (metis mset_subset_eq_add_left)
qed

lemma mset_take_subseteq: "mset (take n xs) \<subseteq># mset xs"
  by (metis append_take_drop_id mset_append mset_subset_eq_add_left)

lemma selection_properties:
  "mset (map snd (take n (sort_desc fst (zip scores documents)))) \<subseteq># mset documents
   \<and> length (map snd (take n (sort_desc fst (zip scores documents)))) \<le> n
   \<and> top_n_by_score n (zip scores documents)
        (map snd (take n (sort_desc fst (zip scores documents))))"
proof -
  let ?out = "map snd (take n (sort_desc fst (zip scores documents)))"
  have "mset ?out \<subseteq># mset (map snd (zip scores documents))"
    by (rule selection_sub_mset)
  also have "\<dots> \<subseteq># mset documents"
    by (simp only: map_snd_zip_take mset_take_subseteq)
  finally have sub: "mset ?out \<subseteq># mset documents" .
  have len: "length ?out \<le> n" by simp
  have "top_n_by_score n (map (\<lambda>x. (fst x, snd x)) (zip scores documents)) ?out"
    by (rule sort_desc_selection)
  then have "top_n_by_score n (zip scores documents) ?out" by simp
  with sub len show ?thesis by (intro conjI)
qed

lemma client_selection_properties:
  "mset (map fst (take n (sort_desc snd (zip docs scores)))) \<subseteq># mset docs
   \<and> length (map fst (take n (sort_desc snd (zip docs scores)))) \<le> n
   \<and> top_n_by_score n (zip scores docs)
        (map fst (take n (sort_desc snd (zip docs scores))))"
proof -
  let ?out = "map fst (take n (sort_desc snd (zip docs scores)))"
  have "mset ?out \<subseteq># mset (map fst (zip docs scores))"
    by (rule selection_sub_mset)
  also have "\<dots> \<subseteq># mset docs"
    by (simp only: map_fst_zip_take mset_take_subseteq)
  finally have sub: "mset ?out \<subseteq># mset docs" .
  have len: "length ?out \<le> n" by simp
  have sw: "map (\<lambda>x. (snd x, fst x)) (zip docs scores) = zip scores docs"
    by (subst (2) zip_commute) (simp add: case_prod_unfold)
  have "top_n_by_score n (map (\<lambda>x. (snd x, fst x)) (zip docs scores)) ?out"
    by (rule sort_desc_selection)
  then have "top_n_by_score n (zip scores docs) ?out" by (simp only: sw)
  with sub len show ?thesis by (intro conjI)
qed

lemma top_n_by_score_Nil: "top_n_by_score n [] []"
  by (simp add: top_n_by_score_def)

lemma rerank_returns:
  assumes "predict (map (\<lambda>doc. (query, page_content doc)) documents) = Inr scores"
  shows "\<exists>out. rerank predict query documents = Inr out \<and>
           mset out \<subseteq># mset documents \<and> length out \<le> RERANKER_TOP_N \<and>
           (query = [] \<longrightarrow> out = []) \<and>
           (query \<noteq> [] \<longrightarrow> top_n_by_score RERANKER_TOP_N (zip scores documents) out)"
proof (cases "documents = [] \<or> query = []")
  case True
  then have "rerank predict query documents = Inr []" by (simp add: rerank_def)
  moreover have "query \<noteq> [] \<longrightarrow> top_n_by_score RERANKER_TOP_N (zip scores documents) []"
    using True by (auto simp: top_n_by_score_Nil)
  ultimately show ?thesis by simp
next
  case False
  let ?out = "map snd (take RERANKER_TOP_N (sort_desc fst (zip scores documents)))"
  from False assms have "rerank predict query documents = Inr ?out"
    by (simp add: rerank_def)
  moreover note selection_properties[of RERANKER_TOP_N scores documents]
  ultimately show ?thesis using False by blast
qed

lemma rerank_documents_returns:
  assumes "predict (map (\<lambda>doc. (query, page_content doc)) docs) = Inr scores"
  shows "\<exists>out. rerank_documents predict query docs = Inr out \<and>
           mset out \<subseteq># mset docs \<and> length out \<le> RERANKER_N \<and>
           top_n_by_score RERANKER_N (zip scores docs) out"
proof (cases "docs = []")
  case True
  then have "rerank_documents predict query docs = Inr []" by (simp add: rerank_documents_def)
  then show ?thesis using True by (simp add: top_n_by_score_Nil)
next
  case False
  let ?out = "map fst (take RERANKER_N (sort_desc snd (zip docs scores)))"
  from False assms have "rerank_documents predict query docs = Inr ?out"
    by (simp add: rerank_documents_def)
  moreover note client_selection_properties[of RERANKER_N docs scores]
  ultimately show ?thesis by blast
qed

text \<open>
  An empty query and a non-empty candidate list: \<open>ReRanker.rerank\<close> returns the empty
  list, which is not the candidates in descending order of score cut to the first N.
\<close>

theorem rerank_empty_query_counterexample:
  "rerank (\<lambda>pairs. Inr [1 :: nat]) [] [passage ''a''] = Inr []
   \<and> \<not> top_n_by_score RERANKER_TOP_N (zip [1 :: nat] [passage ''a'']) []"
  by (simp add: rerank_def top_n_by_score_def RERANKER_TOP_N_def)

text \<open>
  C2. Both rerankers (\<open>ReRanker.rerank\<close> and the client's \<open>_rerank_documents\<close>) return
  the empty list for an empty candidate list, whatever the relevance model does, and
  \<open>ReRanker.rerank\<close> also returns it for an empty query. Whenever the relevance model
  returns scores for the candidates, both rerankers return a list: it holds no document
  more often than the input does (so nothing is added and nothing duplicated), it is no
  longer than the configured N and, for \<open>ReRanker.rerank\<close> with a non-empty query and for
  \<open>_rerank_documents\<close> with any query, it is the documents of the first N candidates in
  descending order of the relevance model's scores, candidates of equal score in their
  input order. When the relevance model is called and raises, its exception is the
  reranker's.
\<close>

theorem reranker_refinement:
  "rerank predict query [] = Inr [] \<and> rerank_documents predict query [] = Inr []
   \<and> rerank predict [] documents = Inr []
   \<and> (predict (map (\<lambda>doc. (query, page_content doc)) documents) = Inr scores \<longrightarrow>
        (\<exists>out. rerank predict query documents = Inr out \<and>
           mset out \<subseteq># mset documents \<and> length out \<le> RERANKER_TOP_N \<and>
           (query = [] \<longrightarrow> out = []) \<and>
           (query \<noteq> [] \<longrightarrow> top_n_by_score RERANKER_TOP_N (zip scores documents) out))
        \<and> (\<exists>out. rerank_documents predict query documents = Inr out \<and>
           mset out \<subseteq># mset documents \<and> length out \<le> RERANKER_N \<and>
           top_n_by_score RERANKER_N (zip scores documents) out))
   \<and> (documents \<noteq> [] \<and>
      predict (map (\<lambda>doc. (query, page_content doc)) documents) = Inl e \<longrightarrow>
        rerank_documents predict query documents = Inl e \<and>
        (query \<noteq> [] \<longrightarrow> rerank predict query documents = Inl e))"
proof -
  have c1: "rerank predict query [] = Inr []" by (simp add: rerank_def)
  have c2: "rerank_documents predict query [] = Inr []" by (simp add: rerank_documents_def)
  have c3: "rerank predict [] documents = Inr []" by (simp add: rerank_def)
  have c4: "predict (map (\<lambda>doc. (query, page_content doc)) documents) = Inr scores \<longrightarrow>
        (\<exists>out. rerank predict query documents = Inr out \<and>
           mset out \<subseteq># mset documents \<and> length out \<le> RERANKER_TOP_N \<and>
           (query = [] \<longrightarrow> out = []) \<and>
           (query \<noteq> [] \<longrightarrow> top_n_by_score RERANKER_TOP_N (zip scores documents) out))
        \<and> (\<exists>out. rerank_documents predict query documents = Inr out \<and>
           mset out \<subseteq># mset documents \<and> length out \<le> RERANKER_N \<and>
           top_n_by_score RERANKER_N (zip scores documents) out)"
    using rerank_returns[of predict query documents scores]
      rerank_documents_returns[of predict query documents scores]
    by (intro impI conjI)
  have c5: "documents \<noteq> [] \<and>
      predict (map (\<lambda>doc. (query, page_content doc)) documents) = Inl e \<longrightarrow>
        rerank_documents predict query documents = Inl e \<and>
        (query \<noteq> [] \<longrightarrow> rerank predict query documents = Inl e)"
    by (simp add: rerank_def rerank_documents_def)
  show ?thesis by (intro conjI; fact)
qed

theorem reranker_refinement_witness:
  "rerank (\<lambda>pairs. Inr [2, 5, 5, 1, 9, 3 :: nat]) ''q''
     [passage ''a'', passage ''b'', passage ''c'', passage ''d'', passage ''e'', passage ''f'']
     = Inr [passage ''e'', passage ''b'', passage ''c'', passage ''f'', passage ''a'']
   \<and> mset [passage ''e'', passage ''b'', passage ''c'', passage ''f'', passage ''a'']
       \<subseteq># mset [passage ''a'', passage ''b'', passage ''c'', passage ''d'', passage ''e'',
                  passage ''f'']
   \<and> top_n_by_score RERANKER_TOP_N
       (zip [2, 5, 5, 1, 9, 3 :: nat]
          [passage ''a'', passage ''b'', passage ''c'', passage ''d'', passage ''e'',
           passage ''f''])
       [passage ''e'', passage ''b'', passage ''c'', passage ''f'', passage ''a'']
   \<and> rerank_documents (\<lambda>pairs. Inr [1, 4, 4 :: nat]) ''q''
       [passage ''a'', passage ''b'', passage ''c'']
     = Inr [passage ''b'', passage ''c'', passage ''a'']
   \<and> top_n_by_score RERANKER_N
       (zip [1, 4, 4 :: nat] [passage ''a'', passage ''b'', passage ''c''])
       [passage ''b'', passage ''c'', passage ''a'']
   \<and> rerank (\<lambda>pairs. Inr [1, 4, 4 :: nat]) []
       [passage ''a'', passage ''b'', passage ''c'']
     = Inr []
   \<and> rerank (\<lambda>pairs. Inl (Raised ''model'') :: error + nat list) ''q'' [passage ''a'']
     = Inl (Raised ''model'')
   \<and> rerank_documents (\<lambda>pairs. Inl (Raised ''model'') :: error + nat list) ''q'' [passage ''a'']
     = Inl (Raised ''model'')"
proof -
  let ?docs = "[passage ''a'', passage ''b'', passage ''c'', passage ''d'', passage ''e'',
                passage ''f'']"
  let ?out = "[passage ''e'', passage ''b'', passage ''c'', passage ''f'', passage ''a'']"
  let ?predict = "\<lambda>pairs :: (string \<times> string) list. Inr [2, 5, 5, 1, 9, 3 :: nat] :: error + nat list"
  let ?docs' = "[passage ''a'', passage ''b'', passage ''c'']"
  let ?out' = "[passage ''b'', passage ''c'', passage ''a'']"
  let ?predict' = "\<lambda>pairs :: (string \<times> string) list. Inr [1, 4, 4 :: nat] :: error + nat list"
  let ?raise = "\<lambda>pairs :: (string \<times> string) list. Inl (Raised ''model'') :: error + nat list"
  have r: "rerank ?predict ''q'' ?docs = Inr ?out"
    by (simp add: rerank_def sort_desc_def RERANKER_TOP_N_def)
  have r': "rerank_documents ?predict' ''q'' ?docs' = Inr ?out'"
    by (simp add: rerank_documents_def sort_desc_def RERANKER_N_def)
  have q: "''q'' \<noteq> []" by simp
  have "\<exists>out. rerank ?predict ''q'' ?docs = Inr out \<and>
           mset out \<subseteq># mset ?docs \<and> length out \<le> RERANKER_TOP_N \<and>
           (''q'' = [] \<longrightarrow> out = []) \<and>
           (''q'' \<noteq> [] \<longrightarrow> top_n_by_score RERANKER_TOP_N (zip [2, 5, 5, 1, 9, 3 :: nat] ?docs) out)"
    using reranker_refinement[of ?predict "''q''" ?docs "[2, 5, 5, 1, 9, 3]"] by blast
  then have a: "mset ?out \<subseteq># mset ?docs \<and>
      top_n_by_score RERANKER_TOP_N (zip [2, 5, 5, 1, 9, 3 :: nat] ?docs) ?out"
    unfolding r using q by blast
  have "\<exists>out. rerank_documents ?predict' ''q'' ?docs' = Inr out \<and>
           mset out \<subseteq># mset ?docs' \<and> length out \<le> RERANKER_N \<and>
           top_n_by_score RERANKER_N (zip [1, 4, 4 :: nat] ?docs') out"
    using reranker_refinement[of ?predict' "''q''" ?docs' "[1, 4, 4]"] by blast
  then have b: "top_n_by_score RERANKER_N (zip [1, 4, 4 :: nat] ?docs') ?out'"
    unfolding r' by blast
  have h: "[passage ''a''] \<noteq> [] \<and>
      ?raise (map (\<lambda>doc. (''q'', page_content doc)) [passage ''a'']) = Inl (Raised ''model'')"
    by simp
  from reranker_refinement[of ?raise "''q''" "[passage ''a'']" _ "Raised ''model''"] h q
  have c: "rerank ?raise ''q'' [passage ''a''] = Inl (Raised ''model'') \<and>
           rerank_documents ?raise ''q'' [passage ''a''] = Inl (Raised ''model'')"
    by blast
  have "\<exists>out. rerank ?predict' [] ?docs' = Inr out \<and>
           mset out \<subseteq># mset ?docs' \<and> length out \<le> RERANKER_TOP_N \<and>
           (([] :: string) = [] \<longrightarrow> out = []) \<and>
           (([] :: string) \<noteq> [] \<longrightarrow> top_n_by_score RERANKER_TOP_N (zip [1, 4, 4 :: nat] ?docs') out)"
    using reranker_refinement[of ?predict' "[]" ?docs' "[1, 4, 4]"] by blast
  then have d: "rerank ?predict' [] ?docs' = Inr []" by auto
  from r r' a b c d show ?thesis by (intro conjI) blast+
qed

subsection \<open>Deduplication\<close>

lemma dict_set_key_set: "fst ` set (dict_set m k v) = insert k (fst ` set m)"
proof (induction m)
  case Nil
  then show ?case by simp
next
  case (Cons kv m)
  obtain k' v' where kv: "kv = (k', v')" by (cases kv)
  show ?case
  proof (cases "k' = k")
    case True
    then show ?thesis by (simp add: kv)
  next
    case False
    with Cons.IH show ?thesis by (simp add: kv insert_commute)
  qed
qed



lemma dict_set_entries:
  "(k', v') \<in> set (dict_set m k v) \<Longrightarrow> (k', v') \<in> set m \<or> (k', v') = (k, v)"
  by (induction m) (auto split: if_splits)

lemma unique_fold_keys:
  "fst ` set (foldl (\<lambda>m doc. dict_set m (identity doc) doc) m ds)
     = fst ` set m \<union> identity ` set ds"
  by (induction ds arbitrary: m) (simp_all add: dict_set_key_set)


lemma unique_fold_entries:
  "(k, v) \<in> set (foldl (\<lambda>m doc. dict_set m (identity doc) doc) m ds) \<Longrightarrow>
     (k, v) \<in> set m \<or> (v \<in> set ds \<and> k = identity v)"
proof (induction ds arbitrary: m)
  case Nil
  then show ?case by simp
next
  case (Cons d ds)
  from Cons.IH[of "dict_set m (identity d) d"] Cons.prems
  have "(k, v) \<in> set (dict_set m (identity d) d) \<or> (v \<in> set ds \<and> k = identity v)"
    by simp
  then show ?case by (auto dest: dict_set_entries)
qed

lemma unique_docs_map_entries:
  "(k, v) \<in> set (unique_docs_map ds) \<Longrightarrow> v \<in> set ds \<and> k = identity v"
  using unique_fold_entries[of k v "[]" ds] by (simp add: unique_docs_map_def)

lemma unique_docs_identities: "map identity (unique_docs ds) = map fst (unique_docs_map ds)"
  by (auto simp: unique_docs_def dest: unique_docs_map_entries)


lemma unique_docs_same_identities: "identity ` set (unique_docs ds) = identity ` set ds"
proof -
  have "identity ` set (unique_docs ds) = set (map identity (unique_docs ds))" by simp
  also have "\<dots> = identity ` set ds"
    unfolding unique_docs_identities unique_docs_map_def by (simp add: unique_fold_keys)
  finally show ?thesis .
qed



lemma unique_docs_empty: "unique_docs ds = [] \<longleftrightarrow> ds = []"
  using unique_docs_same_identities[of ds] by (cases ds) auto

subsection \<open>The stream\<close>


lemma rerank_empty: "rerank predict query [] = Inr []"
  by (simp add: rerank_def)

lemma stream_query_response_normal:
  assumes "retriever user_query = Inr retrieved"
    and "rerank predict user_query (unique_docs retrieved) = Inr reranked"
  shows "stream_query_response tpl retriever predict llm user_query =
     ((Retrieve user_query
        # (if unique_docs retrieved = [] then [] else [Rerank user_query (unique_docs retrieved)]))
      @ Yield (Source_docs reranked)
        # (if reranked = [] then []
           else Generate (format_prompt tpl (format_context reranked) user_query)
                # map (\<lambda>token. Yield (Answer_token token))
                    (fst (stream_tokens (llm (format_prompt tpl (format_context reranked) user_query))))),
      if reranked = [] then None
      else snd (stream_tokens (llm (format_prompt tpl (format_context reranked) user_query))))"
proof (cases "unique_docs retrieved = []")
  case True
  with assms(2) have "reranked = []" by (simp add: rerank_empty)
  with True assms(1) show ?thesis by (simp add: stream_query_response_def)
next
  case False
  with assms show ?thesis
    by (simp add: stream_query_response_def Let_def case_prod_unfold)
qed

lemma rerank_ab:
  "rerank (\<lambda>pairs. Inr [1, 2 :: nat]) ''q'' [passage ''a'', passage ''b'']
     = Inr [passage ''b'', passage ''a'']"
  by (simp add: rerank_def sort_desc_def RERANKER_TOP_N_def)



lemma unique_docs_aba:
  "unique_docs [passage ''a'', passage ''b'', passage ''a''] = [passage ''a'', passage ''b'']"
  by (simp add: unique_docs_def unique_docs_map_def identity_def passage_def)








subsection \<open>The empty context\<close>

text \<open>
  The monolithic context assembler has no sentinel: for an empty list it returns the
  empty string.
\<close>

theorem format_context_empty_counterexample: "format_context [] = []"
  by (simp add: format_context_def)

text \<open>
  C7, as the code has it. The client's context assembler returns the fixed sentinel for
  an empty list, and the sentinel is not the empty string. The monolithic assembler
  returns the empty string for an empty list, and the monolithic pipeline never gives it
  one: every prompt sent to the generation engine is built from the context of a
  non-empty reranked list.
\<close>

theorem context_emptiness:
  "client_format_context [] = NO_SOURCE_SENTINEL
   \<and> NO_SOURCE_SENTINEL \<noteq> []
   \<and> format_context [] = []
   \<and> (Generate prompt \<in> set (fst (stream_query_response tpl retriever predict llm user_query)) \<longrightarrow>
        (\<exists>reranked. reranked \<noteq> [] \<and>
           prompt = format_prompt tpl (format_context reranked) user_query))"
proof -
  have "\<exists>reranked. reranked \<noteq> [] \<and>
           prompt = format_prompt tpl (format_context reranked) user_query"
    if "Generate prompt \<in> set (fst (stream_query_response tpl retriever predict llm user_query))"
    using that
    by (auto simp: stream_query_response_def Let_def case_prod_unfold
        split: sum.splits if_splits)
  then show ?thesis
    by (simp add: client_format_context_def NO_SOURCE_SENTINEL_def format_context_def)
qed

theorem context_emptiness_witness:
  "Generate (format_prompt \<lparr>before_first = ''<'', before_second = ''|'', after_second = ''>''\<rparr>
               (format_context [passage ''b'', passage ''a'']) ''q'')
     \<in> set (fst (stream_query_response
                   \<lparr>before_first = ''<'', before_second = ''|'', after_second = ''>''\<rparr>
                   (\<lambda>q. Inr [passage ''a'', passage ''b'', passage ''a''])
                   (\<lambda>pairs. Inr [1, 2 :: nat])
                   (\<lambda>prompt. [Inr (Some ''Hel'')])
                   ''q''))
   \<and> (\<exists>reranked. reranked \<noteq> [] \<and>
         format_prompt \<lparr>before_first = ''<'', before_second = ''|'', after_second = ''>''\<rparr>
           (format_context [passage ''b'', passage ''a'']) ''q''
         = format_prompt \<lparr>before_first = ''<'', before_second = ''|'', after_second = ''>''\<rparr>
             (format_context reranked) ''q'')
   \<and> client_format_context [] = NO_SOURCE_SENTINEL"
proof -
  let ?tpl = "\<lparr>before_first = ''<'', before_second = ''|'', after_second = ''>''\<rparr>"
  let ?retriever = "\<lambda>q :: string. Inr [passage ''a'', passage ''b'', passage ''a''] :: error + document list"
  let ?predict = "\<lambda>pairs :: (string \<times> string) list. Inr [1, 2 :: nat] :: error + nat list"
  let ?llm = "\<lambda>prompt :: string. [Inr (Some ''Hel'')] :: (error + string option) list"
  let ?prompt = "format_prompt ?tpl (format_context [passage ''b'', passage ''a'']) ''q''"
  have r: "rerank ?predict ''q'' (unique_docs [passage ''a'', passage ''b'', passage ''a''])
             = Inr [passage ''b'', passage ''a'']"
    by (simp only: unique_docs_aba rerank_ab)
  have "stream_query_response ?tpl ?retriever ?predict ?llm ''q''
          = ([Retrieve ''q'', Rerank ''q'' [passage ''a'', passage ''b''],
              Yield (Source_docs [passage ''b'', passage ''a'']), Generate ?prompt,
              Yield (Answer_token ''Hel'')], None)"
    using stream_query_response_normal[of ?retriever "''q''"
        "[passage ''a'', passage ''b'', passage ''a'']" ?predict "[passage ''b'', passage ''a'']"
        ?tpl ?llm, OF refl r]
    by (simp add: unique_docs_aba get_or_def)
  then have h: "Generate ?prompt
      \<in> set (fst (stream_query_response ?tpl ?retriever ?predict ?llm ''q''))"
    by simp
  from context_emptiness[of ?prompt ?tpl ?retriever ?predict ?llm "''q''"] h
  show ?thesis by blast
qed

subsection \<open>The same bundle on the monolithic path\<close>

lemma answer_tokens_map: "answer_tokens (map (\<lambda>token. Yield (Answer_token token)) tokens) = tokens"
  by (induction tokens) simp_all

text \<open>
  Whenever the monolithic \<open>_handle_query\<close> presents a verdict, the store was asked once,
  and the list handed to the verifier is the reranker's output: the list yielded as the
  first item of the stream and the list whose context is in the prompt of the one call
  of the generation engine.
\<close>

lemma handle_query_same_bundle:
  assumes "handle_query tpl retriever predict llm user_query = (events, Presented p)"
  shows "\<exists>retrieved reranked tokens.
           retriever user_query = Inr retrieved \<and>
           rerank predict user_query (unique_docs retrieved) = Inr reranked \<and>
           reranked \<noteq> [] \<and>
           events = [Retrieve user_query, Rerank user_query (unique_docs retrieved),
                     Yield (Source_docs reranked),
                     Generate (format_prompt tpl (format_context reranked) user_query)]
                    @ map (\<lambda>token. Yield (Answer_token token)) tokens
                    @ [Verify (concat tokens) reranked] \<and>
           verify_and_present (concat tokens) reranked = Inr p"
proof (cases "retriever user_query")
  case (Inl e)
  with assms show ?thesis
    by (simp add: handle_query_def stream_query_response_def)
next
  case (Inr retrieved)
  show ?thesis
  proof (cases "rerank predict user_query (unique_docs retrieved)")
    case (Inl e)
    with Inr have "unique_docs retrieved \<noteq> []" by (auto simp: rerank_empty)
    with Inr Inl assms show ?thesis
      by (simp add: handle_query_def stream_query_response_def)
  next
    case rr: (Inr reranked)
    let ?prompt = "format_prompt tpl (format_context reranked) user_query"
    let ?tokens = "fst (stream_tokens (llm ?prompt))"
    note s = stream_query_response_normal[of retriever user_query retrieved predict reranked tpl llm, OF Inr rr]
    show ?thesis
    proof (cases "reranked = []")
      case True
      with assms s show ?thesis
        by (cases "unique_docs retrieved = []") (simp_all add: handle_query_def)
    next
      case False
      then have u: "unique_docs retrieved \<noteq> []" using rr by (auto simp: rerank_empty)
      from assms s False u have
        "events = [Retrieve user_query, Rerank user_query (unique_docs retrieved),
                     Yield (Source_docs reranked), Generate ?prompt]
                    @ map (\<lambda>token. Yield (Answer_token token)) ?tokens
                    @ [Verify (concat ?tokens) reranked] \<and>
         verify_and_present (concat ?tokens) reranked = Inr p"
        by (auto simp: handle_query_def answer_tokens_map Let_def split: option.splits sum.splits)
      with Inr rr False show ?thesis by blast
    qed
  qed
qed

end
